theory Spec2Isabelle
  imports Complex_Main
begin

section \<open>Helix refinement of a predicted protein backbone\<close>

text \<open>
  A shallow embedding of \<^verbatim>\<open>postprocessing/helix_refinement.py\<close>. Coordinates are
  numpy floats in the source; here they are real numbers, so rounding, overflow and NaN are
  outside the model. Python exceptions are values of the type \<open>error\<close>; a function that
  can raise returns \<open>error + 'a\<close> with \<open>Inl\<close> for the exception. A loop that need not
  terminate returns an \<open>option\<close>, with \<open>None\<close> for a run that never returns.
\<close>

subsection \<open>Points, vectors and exceptions\<close>

type_synonym point = "real \<times> real \<times> real"

datatype error =
    CurvedScrewAxisError point
  | IndexError
  | ZeroDivisionError
  | ValueError
  | TypeError

definition vadd :: "point \<Rightarrow> point \<Rightarrow> point" where
  "vadd p q = (case p of (a, b, c) \<Rightarrow> (case q of (x, y, z) \<Rightarrow> (a + x, b + y, c + z)))"

definition vsub :: "point \<Rightarrow> point \<Rightarrow> point" where
  "vsub p q = (case p of (a, b, c) \<Rightarrow> (case q of (x, y, z) \<Rightarrow> (a - x, b - y, c - z)))"

definition smul :: "real \<Rightarrow> point \<Rightarrow> point" where
  "smul k p = (case p of (a, b, c) \<Rightarrow> (k * a, k * b, k * c))"

definition dot :: "point \<Rightarrow> point \<Rightarrow> real" where
  "dot p q = (case p of (a, b, c) \<Rightarrow> (case q of (x, y, z) \<Rightarrow> a * x + b * y + c * z))"

definition cross :: "point \<Rightarrow> point \<Rightarrow> point" where
  "cross p q = (case p of (a, b, c) \<Rightarrow> (case q of (x, y, z) \<Rightarrow>
     (b * z - c * y, c * x - a * z, a * y - b * x)))"

text \<open>\<^verbatim>\<open>np.linalg.norm\<close> of a vector of three components.\<close>

definition norm3 :: "point \<Rightarrow> real" where
  "norm3 p = (case p of (a, b, c) \<Rightarrow> sqrt (a * a + b * b + c * c))"

definition get_distance :: "point \<Rightarrow> point \<Rightarrow> real" where
  "get_distance point1 point2 = norm3 (vsub point1 point2)"

definition get_vector :: "point \<Rightarrow> point \<Rightarrow> point" where
  "get_vector node1 node2 =
     (case node1 of (a, b, c) \<Rightarrow> (case node2 of (x, y, z) \<Rightarrow> (x - a, y - b, z - c)))"

definition normalize :: "point \<Rightarrow> point" where
  "normalize v = (let norm = norm3 v in if norm = 0 then v else smul (1 / norm) v)"

text \<open>
  \<^verbatim>\<open>get_centroid\<close> sums the coordinates and divides by the number of nodes; the sums start
  as the Python integer 0, so an empty list divides \<open>0 / 0\<close> and raises.
\<close>

definition get_centroid :: "point list \<Rightarrow> error + point" where
  "get_centroid nodes =
     (let n = length nodes;
          s = foldl vadd (0, 0, 0) nodes
      in if n = 0 then Inl ZeroDivisionError else Inr (smul (1 / real n) s))"

definition clip :: "real \<Rightarrow> real \<Rightarrow> real \<Rightarrow> real" where
  "clip x lo hi = min (max x lo) hi"

definition angle_between :: "point \<Rightarrow> point \<Rightarrow> real" where
  "angle_between v1 v2 =
     (let v1_u = normalize v1; v2_u = normalize v2
      in arccos (clip (dot v1_u v2_u) (- 1) 1) * (180 / pi))"

subsection \<open>Rebasing the secondary structure indices\<close>

text \<open>
  A range is the two-element list \<^verbatim>\<open>[start, end]\<close> of the source. \<^verbatim>\<open>update_sec_structure\<close>
  visits every range and tests the two boundaries one after the other.
\<close>

type_synonym node_range = "int \<times> int"

fun update_sec_structure :: "node_range list \<Rightarrow> int \<Rightarrow> int \<Rightarrow> node_range list" where
  "update_sec_structure [] node_start diff = []"
| "update_sec_structure ((s, e) # rest) node_start diff =
     ((if s > node_start then s + diff else s), (if e > node_start then e + diff else e))
       # update_sec_structure rest node_start diff"

subsection \<open>Curve\<close>

text \<open>
  A \<^verbatim>\<open>Curve\<close> holds nothing but its control points, so it is the list of them.
  \<open>step_slice k xs\<close> is the Python slice \<^verbatim>\<open>xs[::k]\<close> for a positive step.
\<close>

type_synonym curve = "point list"

fun step_slice :: "nat \<Rightarrow> 'a list \<Rightarrow> 'a list" where
  "step_slice k [] = []"
| "step_slice k (x # xs) = x # step_slice k (drop (k - 1) xs)"

text \<open>
  The constructor evaluates \<^verbatim>\<open>nodes[:-1][::flatten] + [nodes[-1]]\<close>: a step of zero raises
  \<^verbatim>\<open>ValueError\<close>, a negative step walks the list backwards, and \<^verbatim>\<open>nodes[-1]\<close> of an empty
  list raises \<^verbatim>\<open>IndexError\<close>.
\<close>

definition Curve_init :: "point list \<Rightarrow> int \<Rightarrow> error + curve" where
  "Curve_init nodes flatten =
     (if flatten = 0 then Inl ValueError
      else if nodes = [] then Inl IndexError
      else Inr ((if flatten > 0 then step_slice (nat flatten) (butlast nodes)
                 else step_slice (nat (- flatten)) (rev (butlast nodes))) @ [last nodes]))"

text \<open>
  \<^verbatim>\<open>Curve.__call__\<close>: the loop over the segments \<open>i\<close>, \<open>i + 1\<close> is the recursion over the
  list of control points; \<open>None\<close> is the \<^verbatim>\<open>None\<close> the source returns after the loop.
\<close>

fun Curve_call :: "curve \<Rightarrow> real \<Rightarrow> point option" where
  "Curve_call (a # b # rest) t =
     (let vector_to_next = get_vector a b;
          distance_to_next = norm3 vector_to_next
      in if distance_to_next > t
         then Some (vadd a (smul (t / distance_to_next) vector_to_next))
         else Curve_call (b # rest) (t - distance_to_next))"
| "Curve_call _ t = None"

fun Curve_get_vector :: "curve \<Rightarrow> real \<Rightarrow> point option" where
  "Curve_get_vector (a # b # rest) t =
     (let vector_to_next = get_vector a b;
          distance_to_next = norm3 vector_to_next
      in if distance_to_next > t
         then Some vector_to_next
         else Curve_get_vector (b # rest) (t - distance_to_next))"
| "Curve_get_vector _ t = None"

text \<open>
  \<^verbatim>\<open>get_node_max_angle\<close> keeps the angles in \<^verbatim>\<open>np.array([0] * interval_size)\<close>, an array
  of integers: storing a float in it drops the fraction (\<open>trunc_int\<close>). The loop runs over
  the interior indices \<open>1, \<dots>, len - 2\<close>; \<^verbatim>\<open>i % interval_size\<close> raises for a size of zero.
\<close>

definition trunc_int :: "real \<Rightarrow> int" where
  "trunc_int x = (if 0 \<le> x then \<lfloor>x\<rfloor> else \<lceil>x\<rceil>)"

fun max_angle_loop ::
  "curve \<Rightarrow> real \<Rightarrow> nat \<Rightarrow> int list \<Rightarrow> nat list \<Rightarrow> error + point option" where
  "max_angle_loop nodes max_angle interval_size current_interval [] = Inr None"
| "max_angle_loop nodes max_angle interval_size current_interval (i # is) =
     (let vector_to_current = get_vector (nodes ! (i - 1)) (nodes ! i);
          vector_to_next = get_vector (nodes ! i) (nodes ! (i + 1))
      in if interval_size = 0 then Inl ZeroDivisionError
         else
           let current_interval' = current_interval
                 [i mod interval_size := trunc_int (angle_between vector_to_current vector_to_next)]
           in if real_of_int (sum_list current_interval') > max_angle
              then Inr (Some (nodes ! nat (max (int i - int (interval_size div 2)) 0)))
              else max_angle_loop nodes max_angle interval_size current_interval' is)"

definition get_node_max_angle :: "curve \<Rightarrow> real \<Rightarrow> nat \<Rightarrow> error + point option" where
  "get_node_max_angle nodes max_angle interval_size =
     max_angle_loop nodes max_angle interval_size (replicate interval_size 0)
       [1 ..< length nodes - 1]"

text \<open>The total arc length of a curve: the sum of the lengths of its segments.\<close>

fun curve_length :: "curve \<Rightarrow> real" where
  "curve_length (a # b # rest) = norm3 (get_vector a b) + curve_length (b # rest)"
| "curve_length _ = 0"

subsection \<open>Python lists\<close>

text \<open>
  Indexing and slicing as Python does them on a list of length \<open>n\<close>: an index \<open>j\<close> with
  \<open>- n \<le> j < n\<close> is read from the end when it is negative and raises \<^verbatim>\<open>IndexError\<close>
  otherwise; a slice bound is moved by \<open>n\<close> when negative and then clamped to \<open>0, \<dots>, n\<close>.
\<close>

definition py_index :: "'a list \<Rightarrow> int \<Rightarrow> error + 'a" where
  "py_index xs j =
     (let n = int (length xs)
      in if - n \<le> j \<and> j < n then Inr (xs ! nat (if j < 0 then j + n else j))
         else Inl IndexError)"

definition slice_bound :: "'a list \<Rightarrow> int \<Rightarrow> nat" where
  "slice_bound xs k =
     (let n = int (length xs) in nat (if k < 0 then max (k + n) 0 else min k n))"

definition py_slice :: "'a list \<Rightarrow> int \<Rightarrow> int \<Rightarrow> 'a list" where
  "py_slice xs a b = take (slice_bound xs b - slice_bound xs a) (drop (slice_bound xs a) xs)"

definition py_slice_to :: "'a list \<Rightarrow> int \<Rightarrow> 'a list" where
  "py_slice_to xs b = take (slice_bound xs b) xs"

definition py_slice_from :: "'a list \<Rightarrow> int \<Rightarrow> 'a list" where
  "py_slice_from xs a = drop (slice_bound xs a) xs"

definition py_slice_assign :: "'a list \<Rightarrow> int \<Rightarrow> int \<Rightarrow> 'a list \<Rightarrow> 'a list" where
  "py_slice_assign xs a b new =
     take (slice_bound xs a) xs @ new @ drop (max (slice_bound xs a) (slice_bound xs b)) xs"

subsection \<open>Average offset\<close>

text \<open>
  \<^verbatim>\<open>get_avg_offset\<close>: for every node of \<open>nodes1\<close> the distance to the closest node of
  \<open>nodes2\<close>, with \<open>- 1\<close> as the value that stands for "none seen yet", summed and divided by
  the number of nodes of \<open>nodes1\<close>.
\<close>

fun closest_distance_loop :: "point \<Rightarrow> real \<Rightarrow> point list \<Rightarrow> real" where
  "closest_distance_loop node1 closest_distance [] = closest_distance"
| "closest_distance_loop node1 closest_distance (node2 # nodes2) =
     (let distance = get_distance node1 node2
      in if distance < closest_distance \<or> closest_distance = - 1
         then closest_distance_loop node1 distance nodes2
         else closest_distance_loop node1 closest_distance nodes2)"

fun sum_offsets_loop :: "real \<Rightarrow> point list \<Rightarrow> point list \<Rightarrow> real" where
  "sum_offsets_loop sum_offsets [] nodes2 = sum_offsets"
| "sum_offsets_loop sum_offsets (node1 # nodes1) nodes2 =
     sum_offsets_loop (sum_offsets + closest_distance_loop node1 (- 1) nodes2) nodes1 nodes2"

definition get_avg_offset :: "point list \<Rightarrow> point list \<Rightarrow> error + real" where
  "get_avg_offset nodes1 nodes2 =
     (let sum_offsets = sum_offsets_loop 0 nodes1 nodes2
      in if length nodes1 = 0 then Inl ZeroDivisionError
         else Inr (sum_offsets / real (length nodes1)))"

subsection \<open>Helix\<close>

text \<open>
  The six parameters of a \<^verbatim>\<open>Helix\<close> (the fields carry the prefix \<open>h_\<close>). Its two mutable
  attributes, \<^verbatim>\<open>screw_axis\<close> and \<^verbatim>\<open>nodes\<close>, are passed to and returned by the functions
  below.
\<close>

record helix =
  h_interval_size :: int
  h_min_interval_size :: int
  h_r :: real
  h_c :: real
  h_gap :: real
  h_flatten :: int

text \<open>
  \<^verbatim>\<open>_set_screw_axis\<close>, first loop: every node is appended to the interval, the oldest node
  is dropped once the interval is longer than \<open>interval_size\<close>, and a centroid is emitted
  when the interval holds at least \<open>min_interval_size\<close> nodes.
\<close>

fun screw_axis_scan ::
  "helix \<Rightarrow> point list \<Rightarrow> point list \<Rightarrow> point list \<Rightarrow> error + (point list \<times> point list)" where
  "screw_axis_scan h centroids interval [] = Inr (centroids, interval)"
| "screw_axis_scan h centroids interval (node # nodes) =
     (let interval1 = interval @ [node];
          interval2 = (if int (length interval1) > h_interval_size h
                       then tl interval1 else interval1)
      in if int (length interval2) \<ge> h_min_interval_size h
         then (case get_centroid interval2 of
                 Inl e \<Rightarrow> Inl e
               | Inr centroid \<Rightarrow> screw_axis_scan h (centroids @ [centroid]) interval2 nodes)
         else screw_axis_scan h centroids interval2 nodes)"

text \<open>
  Second loop: while the interval holds at least \<open>min_interval_size\<close> nodes, the oldest
  node is deleted (\<^verbatim>\<open>IndexError\<close> on an empty interval) and the centroid of what is left is
  emitted.
\<close>

function screw_axis_shrink :: "helix \<Rightarrow> point list \<Rightarrow> point list \<Rightarrow> error + point list" where
  "screw_axis_shrink h centroids interval =
     (if int (length interval) \<ge> h_min_interval_size h
      then (case interval of
              [] \<Rightarrow> Inl IndexError
            | _ # interval' \<Rightarrow>
                (case get_centroid interval' of
                   Inl e \<Rightarrow> Inl e
                 | Inr centroid \<Rightarrow> screw_axis_shrink h (centroids @ [centroid]) interval'))
      else Inr centroids)"
  by pat_completeness auto
termination
  by (relation "measure (\<lambda>(h, centroids, interval). length interval)") auto

definition screw_axis_centroids :: "helix \<Rightarrow> point list \<Rightarrow> error + point list" where
  "screw_axis_centroids h nodes =
     (case screw_axis_scan h [] [] nodes of
        Inl e \<Rightarrow> Inl e
      | Inr (centroids, interval) \<Rightarrow> screw_axis_shrink h centroids interval)"

definition set_screw_axis :: "helix \<Rightarrow> point list \<Rightarrow> error + curve" where
  "set_screw_axis h nodes =
     (case screw_axis_centroids h nodes of
        Inl e \<Rightarrow> Inl e
      | Inr centroids \<Rightarrow> Curve_init centroids (h_flatten h))"

text \<open>
  The body of the loop of \<^verbatim>\<open>_set_nodes\<close>: the frame at \<open>t\<close>, the point of the helix
  formula, its image under \<^verbatim>\<open>np.dot(original_vector, rotation_matrix)\<close> (a row vector times
  the matrix whose rows are the axes) and the node that is appended.
\<close>

definition vecmat :: "point \<Rightarrow> point \<Rightarrow> point \<Rightarrow> point \<Rightarrow> point" where
  "vecmat v row0 row1 row2 =
     (case v of (a, b, c) \<Rightarrow> vadd (vadd (smul a row0) (smul b row1)) (smul c row2))"

definition helix_node :: "helix \<Rightarrow> real \<Rightarrow> real \<Rightarrow> real \<Rightarrow> point \<Rightarrow> point \<Rightarrow> point" where
  "helix_node h shift rotation t position direction =
     (let z_axis = smul (- 1) (normalize direction);
          y_axis = smul (- 1) (normalize (cross z_axis (1, 0, 0)));
          x_axis = smul (- 1) (normalize (cross z_axis y_axis));
          original_vector = (h_r h * sin ((h_c h * t) - shift + rotation),
                             h_r h * cos ((h_c h * t) - shift + rotation),
                             0);
          rotated_vector = vecmat original_vector x_axis y_axis z_axis
      in vadd position rotated_vector)"

text \<open>
  The loop of \<^verbatim>\<open>_set_nodes\<close> runs while the screw axis has a position at \<open>t\<close>; nothing in
  the source bounds the number of rounds, so the result is an option. The direction is
  \<open>None\<close> only where the position is, so the \<^verbatim>\<open>TypeError\<close> branch is never taken.
\<close>

partial_function (option) set_nodes_loop ::
  "helix \<Rightarrow> curve \<Rightarrow> real \<Rightarrow> real \<Rightarrow> real \<Rightarrow> point list \<Rightarrow> (error + point list) option" where
  "set_nodes_loop h screw_axis shift rotation t nodes =
     (case Curve_call screw_axis t of
        None \<Rightarrow> Some (Inr nodes)
      | Some position \<Rightarrow>
          (case Curve_get_vector screw_axis t of
             None \<Rightarrow> Some (Inl TypeError)
           | Some direction \<Rightarrow>
               set_nodes_loop h screw_axis shift rotation (t + h_gap h)
                 (nodes @ [helix_node h shift rotation t position direction])))"

definition set_nodes :: "helix \<Rightarrow> curve \<Rightarrow> real \<Rightarrow> real \<Rightarrow> (error + point list) option" where
  "set_nodes h screw_axis shift rotation = set_nodes_loop h screw_axis shift rotation shift []"

text \<open>
  \<^verbatim>\<open>_set_edges\<close>: \<^verbatim>\<open>int(min_interval_size / 2 - 0.1)\<close> truncates towards zero, and the two
  slices are \<^verbatim>\<open>original_nodes[:edge_length]\<close> and \<^verbatim>\<open>original_nodes[-edge_length:]\<close>.
\<close>

definition edge_length :: "helix \<Rightarrow> int" where
  "edge_length h = trunc_int (real_of_int (h_min_interval_size h) / 2 - 0.1)"

definition set_edges :: "helix \<Rightarrow> point list \<Rightarrow> point list \<Rightarrow> point list" where
  "set_edges h original_nodes nodes =
     py_slice_to original_nodes (edge_length h) @ nodes
       @ py_slice_from original_nodes (- edge_length h)"

text \<open>
  \<^verbatim>\<open>scipy.optimize.minimize\<close> is not part of the repository: it is a parameter, a function
  from the objective and the starting point to the point it returns. Runs in which the
  optimizer itself raises or does not return are outside the model. The objective is
  \<^verbatim>\<open>evaluate_params\<close>; \<^verbatim>\<open>res.sort(key=...)\<close> evaluates it at the three results, in order,
  and sorts stably, so \<^verbatim>\<open>res[0]\<close> is the first result with the least key.
\<close>

type_synonym minimizer = "(real \<times> real \<Rightarrow> (error + real) option) \<Rightarrow> real \<times> real \<Rightarrow> real \<times> real"

definition evaluate_params ::
  "helix \<Rightarrow> curve \<Rightarrow> point list \<Rightarrow> real \<times> real \<Rightarrow> (error + real) option" where
  "evaluate_params h screw_axis nodes x =
     (case set_nodes h screw_axis (fst x) (snd x) of
        None \<Rightarrow> None
      | Some (Inl e) \<Rightarrow> Some (Inl e)
      | Some (Inr generated) \<Rightarrow> Some (get_avg_offset nodes generated))"

fun sort_keys ::
  "(real \<times> real \<Rightarrow> (error + real) option) \<Rightarrow> (real \<times> real) list
     \<Rightarrow> (error + (real \<times> (real \<times> real)) list) option" where
  "sort_keys f [] = Some (Inr [])"
| "sort_keys f (x # xs) =
     (case f x of
        None \<Rightarrow> None
      | Some (Inl e) \<Rightarrow> Some (Inl e)
      | Some (Inr k) \<Rightarrow>
          (case sort_keys f xs of
             None \<Rightarrow> None
           | Some (Inl e) \<Rightarrow> Some (Inl e)
           | Some (Inr kxs) \<Rightarrow> Some (Inr ((k, x) # kxs))))"

definition sort_by_key ::
  "(real \<times> real \<Rightarrow> (error + real) option) \<Rightarrow> (real \<times> real) list
     \<Rightarrow> (error + (real \<times> real) list) option" where
  "sort_by_key f xs =
     (case sort_keys f xs of
        None \<Rightarrow> None
      | Some (Inl e) \<Rightarrow> Some (Inl e)
      | Some (Inr kxs) \<Rightarrow> Some (Inr (map snd (sort_key fst kxs))))"

text \<open>
  The last step of \<^verbatim>\<open>fit\<close>: the generated nodes are kept, with the edges of the original
  nodes, when the average offset lies in \<open>(0.8, 1.7]\<close>, and the original nodes otherwise.
\<close>

definition accept_nodes :: "helix \<Rightarrow> point list \<Rightarrow> point list \<Rightarrow> error + point list" where
  "accept_nodes h nodes generated =
     (case get_avg_offset nodes generated of
        Inl e \<Rightarrow> Inl e
      | Inr d \<Rightarrow> Inr (if 0.8 < d \<and> d \<le> 1.7 then set_edges h nodes generated else nodes))"

definition fit :: "helix \<Rightarrow> minimizer \<Rightarrow> point list \<Rightarrow> (error + point list) option" where
  "fit h minimize nodes =
     (case set_screw_axis h nodes of
        Inl e \<Rightarrow> Some (Inl e)
      | Inr screw_axis \<Rightarrow>
          (case get_node_max_angle screw_axis 80 3 of
             Inl e \<Rightarrow> Some (Inl e)
           | Inr (Some node_max_angle) \<Rightarrow> Some (Inl (CurvedScrewAxisError node_max_angle))
           | Inr None \<Rightarrow>
               (let objective = evaluate_params h screw_axis nodes;
                    res = [minimize objective (- h_gap h, - 2 * pi),
                           minimize objective (0, 0),
                           minimize objective (h_gap h, 2 * pi)]
                in case sort_by_key objective res of
                     None \<Rightarrow> None
                   | Some (Inl e) \<Rightarrow> Some (Inl e)
                   | Some (Inr sorted_res) \<Rightarrow>
                       (case set_nodes h screw_axis (fst (hd sorted_res)) (snd (hd sorted_res)) of
                          None \<Rightarrow> None
                        | Some (Inl e) \<Rightarrow> Some (Inl e)
                        | Some (Inr generated) \<Rightarrow> Some (accept_nodes h nodes generated)))))"

subsection \<open>The refinement of the helices of a chain\<close>

record chain =
  chain_nodes :: "point list"
  chain_sheets :: "node_range list"
  chain_helices :: "node_range list"

text \<open>
  \<^verbatim>\<open>split_helix_at_node\<close>: the loop over \<^verbatim>\<open>range(helix_start, helix_end)\<close> keeps the first
  index whose node is strictly closer than every node before it; \<open>None\<close> stands for the
  initial \<^verbatim>\<open>float('inf')\<close>.
\<close>

fun closest_node_loop ::
  "point list \<Rightarrow> point \<Rightarrow> int \<Rightarrow> real option \<Rightarrow> int list \<Rightarrow> error + int" where
  "closest_node_loop nodes node closest_node min_distance [] = Inr closest_node"
| "closest_node_loop nodes node closest_node min_distance (j # js) =
     (case py_index nodes j of
        Inl e \<Rightarrow> Inl e
      | Inr node_j \<Rightarrow>
          (let distance = get_distance node_j node
           in if (case min_distance of None \<Rightarrow> True | Some m \<Rightarrow> distance < m)
              then closest_node_loop nodes node j (Some distance) js
              else closest_node_loop nodes node closest_node min_distance js))"

definition split_helix_at_node :: "point \<Rightarrow> chain \<Rightarrow> nat \<Rightarrow> error + chain" where
  "split_helix_at_node node ch i =
     (if length (chain_helices ch) \<le> i then Inl IndexError
      else
        (case chain_helices ch ! i of (helix_start, helix_end) \<Rightarrow>
          (case closest_node_loop (chain_nodes ch) node (- 1) None [helix_start .. helix_end - 1] of
             Inl e \<Rightarrow> Inl e
           | Inr found \<Rightarrow>
               (let closest_node = (if helix_start = found then found + 1 else found)
                in Inr (ch\<lparr>chain_helices :=
                     take i (chain_helices ch)
                       @ [(helix_start, closest_node), (closest_node, helix_end)]
                       @ drop (Suc i) (chain_helices ch)\<rparr>)))))"

text \<open>The helix that \<^verbatim>\<open>fit_helices\<close> builds for every attempt.\<close>

definition alpha_helix :: helix where
  "alpha_helix = \<lparr>h_interval_size = 9, h_min_interval_size = 3, h_r = 2.11, h_c = 1.149,
     h_gap = 1.498, h_flatten = 4\<rparr>"

text \<open>
  The success branch: the slice of the nodes is replaced and both lists of ranges are
  rebased by the change of the number of nodes.
\<close>

definition splice_helix :: "chain \<Rightarrow> int \<Rightarrow> int \<Rightarrow> point list \<Rightarrow> chain" where
  "splice_helix ch helix_start helix_end helix_nodes =
     (let original_len = int (length (chain_nodes ch));
          nodes' = py_slice_assign (chain_nodes ch) helix_start helix_end helix_nodes;
          diff = int (length nodes') - original_len
      in \<lparr>chain_nodes = nodes',
          chain_sheets = update_sec_structure (chain_sheets ch) helix_start diff,
          chain_helices = update_sec_structure (chain_helices ch) helix_start diff\<rparr>)"

text \<open>
  The \<^verbatim>\<open>while\<close> loop of \<^verbatim>\<open>fit_helices\<close> over the helices of one chain. Only
  \<^verbatim>\<open>CurvedScrewAxisError\<close> is caught; every other exception ends the run.
\<close>

partial_function (option) fit_helices_loop ::
  "minimizer \<Rightarrow> chain \<Rightarrow> nat \<Rightarrow> (error + chain) option" where
  "fit_helices_loop minimize ch i =
     (if i < length (chain_helices ch)
      then
        (case chain_helices ch ! i of (helix_start, helix_end) \<Rightarrow>
           if helix_end - helix_start < 10
           then fit_helices_loop minimize ch (i + 1)
           else
             (case fit alpha_helix minimize (py_slice (chain_nodes ch) helix_start helix_end) of
                None \<Rightarrow> None
              | Some (Inl (CurvedScrewAxisError node)) \<Rightarrow>
                  (case split_helix_at_node node ch i of
                     Inl e \<Rightarrow> Some (Inl e)
                   | Inr ch' \<Rightarrow> fit_helices_loop minimize ch' i)
              | Some (Inl e) \<Rightarrow> Some (Inl e)
              | Some (Inr helix_nodes) \<Rightarrow>
                  fit_helices_loop minimize
                    (splice_helix ch helix_start helix_end helix_nodes) (i + 1)))
      else Some (Inr ch))"

fun fit_helices :: "minimizer \<Rightarrow> chain list \<Rightarrow> (error + chain list) option" where
  "fit_helices minimize [] = Some (Inr [])"
| "fit_helices minimize (ch # rest) =
     (case fit_helices_loop minimize ch 0 of
        None \<Rightarrow> None
      | Some (Inl e) \<Rightarrow> Some (Inl e)
      | Some (Inr ch') \<Rightarrow>
          (case fit_helices minimize rest of
             None \<Rightarrow> None
           | Some (Inl e) \<Rightarrow> Some (Inl e)
           | Some (Inr rest') \<Rightarrow> Some (Inr (ch' # rest'))))"

subsection \<open>Text of numbers\<close>

text \<open>
  The Python built-ins the file format rests on. \<open>str_int\<close> is \<^verbatim>\<open>str\<close> of an integer,
  \<open>rjust\<close> is \<^verbatim>\<open>str.rjust\<close>, \<open>py_int\<close> is \<^verbatim>\<open>int\<close> of a string (surrounding white space,
  an optional sign, decimal digits) and \<open>py_float\<close> is \<^verbatim>\<open>float\<close> of a string for plain
  decimal notation; underscores, exponents, \<^verbatim>\<open>inf\<close> and \<^verbatim>\<open>nan\<close> are not modelled and
  count as \<^verbatim>\<open>ValueError\<close>. \<open>format_3f\<close> is \<^verbatim>\<open>'{0:.3f}'.format\<close> on a real number: the
  value is rounded to three decimals, halves to the even neighbour.
\<close>

definition newline :: char where
  "newline = CHR 0x0A"

definition is_space :: "char \<Rightarrow> bool" where
  "is_space ch = (ch \<in> set [CHR '' '', CHR 0x09, CHR 0x0A, CHR 0x0B, CHR 0x0C, CHR 0x0D])"

definition strip :: "string \<Rightarrow> string" where
  "strip s = rev (dropWhile is_space (rev (dropWhile is_space s)))"

definition digit_char :: "nat \<Rightarrow> char" where
  "digit_char d = char_of (48 + d)"

fun str_nat :: "nat \<Rightarrow> string" where
  "str_nat n = (if n < 10 then [digit_char n] else str_nat (n div 10) @ [digit_char (n mod 10)])"

definition str_int :: "int \<Rightarrow> string" where
  "str_int i = (if i < 0 then CHR ''-'' # str_nat (nat (- i)) else str_nat (nat i))"

definition rjust :: "nat \<Rightarrow> string \<Rightarrow> string" where
  "rjust n s = replicate (n - length s) CHR '' '' @ s"

definition is_digit :: "char \<Rightarrow> bool" where
  "is_digit ch = (48 \<le> (of_char ch :: nat) \<and> (of_char ch :: nat) \<le> 57)"

definition digit_val :: "char \<Rightarrow> nat" where
  "digit_val ch = of_char ch - 48"

definition digits_val :: "string \<Rightarrow> nat" where
  "digits_val ds = foldl (\<lambda>acc ch. 10 * acc + digit_val ch) 0 ds"

definition split_sign :: "string \<Rightarrow> bool \<times> string" where
  "split_sign t =
     (case t of
        [] \<Rightarrow> (False, [])
      | ch # rest \<Rightarrow>
          if ch = CHR ''-'' then (True, rest)
          else if ch = CHR ''+'' then (False, rest)
          else (False, t))"

definition py_int :: "string \<Rightarrow> error + int" where
  "py_int s =
     (case split_sign (strip s) of (negative, ds) \<Rightarrow>
        if ds = [] \<or> \<not> list_all is_digit ds then Inl ValueError
        else Inr (if negative then - int (digits_val ds) else int (digits_val ds)))"

definition py_float :: "string \<Rightarrow> error + real" where
  "py_float s =
     (case split_sign (strip s) of (negative, body) \<Rightarrow>
        (let whole = takeWhile is_digit body;
             rest = dropWhile is_digit body;
             fraction = tl rest;
             sign = (if negative then - 1 else 1)
         in if rest = []
            then (if whole = [] then Inl ValueError else Inr (sign * real (digits_val whole)))
            else if hd rest = CHR ''.'' \<and> list_all is_digit fraction
                      \<and> (whole \<noteq> [] \<or> fraction \<noteq> [])
            then Inr (sign * (real (digits_val whole)
                        + real (digits_val fraction) / 10 ^ length fraction))
            else Inl ValueError))"

definition round_half_even :: "real \<Rightarrow> int" where
  "round_half_even y =
     (let f = \<lfloor>y\<rfloor>; d = y - of_int f
      in if d < 1 / 2 then f else if 1 / 2 < d then f + 1 else if even f then f else f + 1)"

definition format_3f :: "real \<Rightarrow> string" where
  "format_3f x =
     (let m = nat (round_half_even (\<bar>x\<bar> * 1000))
      in (if x < 0 then ''-'' else []) @ str_nat (m div 1000) @ ''.''
           @ replicate (3 - length (str_nat (m mod 1000))) CHR ''0'' @ str_nat (m mod 1000))"

subsection \<open>Writing the file\<close>

definition format_node :: "point \<Rightarrow> string \<Rightarrow> int \<Rightarrow> string" where
  "format_node node chain_id n =
     (case node of (x, y, z) \<Rightarrow>
        ''ATOM      1  CA  GLY '' @ chain_id @ rjust 4 (str_int n) @ ''    ''
          @ rjust 8 (format_3f x) @ rjust 8 (format_3f y) @ rjust 8 (format_3f z)
          @ ''  1.00  0.00           C  '' @ [newline])"

definition format_helix_info :: "string \<Rightarrow> int \<Rightarrow> int \<Rightarrow> string" where
  "format_helix_info chain_id node_from node_to =
     ''HELIX    1   1 GLY '' @ chain_id @ '' '' @ rjust 4 (str_int (node_from + 1)) @ ''  GLY ''
       @ chain_id @ '' '' @ rjust 4 (str_int node_to) @ ''  1'' @ [newline]"

definition format_sheet_info :: "string \<Rightarrow> int \<Rightarrow> int \<Rightarrow> string" where
  "format_sheet_info chain_id node_from node_to =
     ''SHEET    1   A 6 GLY '' @ chain_id @ rjust 4 (str_int (node_from + 1)) @ ''  GLY ''
       @ chain_id @ rjust 4 (str_int (node_to + 1)) @ ''  0'' @ [newline]"

text \<open>
  \<^verbatim>\<open>write_pdb\<close>: one round of the loop per chain, with the three lists of lines and the
  offset as the state; the text of the file is the three lists joined.
\<close>

fun write_pdb_loop ::
  "chain list \<Rightarrow> int \<Rightarrow> string list \<Rightarrow> string list \<Rightarrow> string list \<Rightarrow> string" where
  "write_pdb_loop [] offset nodes_str helices_str sheets_str =
     concat nodes_str @ concat helices_str @ concat sheets_str"
| "write_pdb_loop (ch # rest) offset nodes_str helices_str sheets_str =
     write_pdb_loop rest (offset + int (length (chain_nodes ch)) + 1)
       (nodes_str
          @ map (\<lambda>i. format_node (chain_nodes ch ! i) ''A'' (offset + int i + 1))
              [0 ..< length (chain_nodes ch)]
          @ [''TER'' @ [newline]])
       (helices_str
          @ map (\<lambda>(helix_start, helix_end).
                   format_helix_info ''A'' (helix_start + offset) (helix_end + offset))
              (chain_helices ch))
       (sheets_str
          @ map (\<lambda>(sheet_start, sheet_end).
                   format_sheet_info ''A'' (sheet_start + offset) (sheet_end + offset))
              (chain_sheets ch))"

definition write_pdb :: "chain list \<Rightarrow> string" where
  "write_pdb chs = write_pdb_loop chs 0 [] [] []"

subsection \<open>Reading the file\<close>

text \<open>
  The lines of a text, each with its line feed, as the iteration over an open file yields
  them (line feeds only; the files written here contain no other line ends).
\<close>

fun file_lines_from :: "string \<Rightarrow> string \<Rightarrow> string list" where
  "file_lines_from current [] = (if current = [] then [] else [current])"
| "file_lines_from current (ch # rest) =
     (if ch = newline then (current @ [ch]) # file_lines_from [] rest
      else file_lines_from (current @ [ch]) rest)"

definition file_lines :: "string \<Rightarrow> string list" where
  "file_lines content = file_lines_from [] content"

text \<open>\<open>contains pattern s\<close> is the test \<^verbatim>\<open>pattern in s\<close> on strings.\<close>

fun starts_with :: "string \<Rightarrow> string \<Rightarrow> bool" where
  "starts_with [] s = True"
| "starts_with (p # ps) [] = False"
| "starts_with (p # ps) (ch # rest) = (p = ch \<and> starts_with ps rest)"

fun contains :: "string \<Rightarrow> string \<Rightarrow> bool" where
  "contains pattern [] = (pattern = [])"
| "contains pattern (ch # rest) = (starts_with pattern (ch # rest) \<or> contains pattern rest)"

definition parse_node :: "string \<Rightarrow> error + point" where
  "parse_node line =
     (case py_float (py_slice line 31 38) of
        Inl e \<Rightarrow> Inl e
      | Inr x \<Rightarrow>
          (case py_float (py_slice line 39 46) of
             Inl e \<Rightarrow> Inl e
           | Inr y \<Rightarrow>
               (case py_float (py_slice line 47 54) of
                  Inl e \<Rightarrow> Inl e
                | Inr z \<Rightarrow> Inr (x, y, z))))"

text \<open>
  The loops of \<^verbatim>\<open>parse_helix\<close> and \<^verbatim>\<open>parse_sheet\<close> over the chains read so far: the helix
  loop stops at the first chain with \<^verbatim>\<open>data[1] <= len(chain.nodes)\<close>, the sheet loop at the
  first with \<^verbatim>\<open>data[1] < len(chain.nodes)\<close>.
\<close>

fun locate_helix :: "node_range \<Rightarrow> nat \<Rightarrow> chain list \<Rightarrow> node_range \<times> nat" where
  "locate_helix data i [] = (data, i)"
| "locate_helix data i (ch # rest) =
     (if snd data \<le> int (length (chain_nodes ch)) then (data, i)
      else locate_helix (fst data - (int (length (chain_nodes ch)) + 1),
                         snd data - (int (length (chain_nodes ch)) + 1)) (i + 1) rest)"

fun locate_sheet :: "node_range \<Rightarrow> nat \<Rightarrow> chain list \<Rightarrow> node_range \<times> nat" where
  "locate_sheet data i [] = (data, i)"
| "locate_sheet data i (ch # rest) =
     (if snd data < int (length (chain_nodes ch)) then (data, i)
      else locate_sheet (fst data - (int (length (chain_nodes ch)) + 1),
                         snd data - (int (length (chain_nodes ch)) + 1)) (i + 1) rest)"

definition parse_helix :: "string \<Rightarrow> chain list \<Rightarrow> error + (node_range \<times> nat)" where
  "parse_helix line chs =
     (case py_int (py_slice line 21 25) of
        Inl e \<Rightarrow> Inl e
      | Inr a \<Rightarrow>
          (case py_int (py_slice line 33 37) of
             Inl e \<Rightarrow> Inl e
           | Inr b \<Rightarrow> Inr (locate_helix (a - 1, b) 0 chs)))"

definition parse_sheet :: "string \<Rightarrow> chain list \<Rightarrow> error + (node_range \<times> nat)" where
  "parse_sheet line chs =
     (case py_int (py_slice line 22 26) of
        Inl e \<Rightarrow> Inl e
      | Inr a \<Rightarrow>
          (case py_int (py_slice line 33 37) of
             Inl e \<Rightarrow> Inl e
           | Inr b \<Rightarrow> Inr (locate_sheet (a - 1, b - 1) 0 chs)))"

definition empty_chain :: chain where
  "empty_chain = \<lparr>chain_nodes = [], chain_sheets = [], chain_helices = []\<rparr>"

text \<open>
  One line of \<^verbatim>\<open>read_pdb\<close>. A \<^verbatim>\<open>ValueError\<close> is caught and the line is skipped, after a
  chain was added for a line that contains \<^verbatim>\<open>TER\<close>; the \<^verbatim>\<open>IndexError\<close> of \<^verbatim>\<open>chains[i]\<close>
  is not caught.
\<close>

definition read_pdb_line :: "chain list \<Rightarrow> string \<Rightarrow> error + chain list" where
  "read_pdb_line chs line =
     (let chs1 = (if contains ''TER'' line then chs @ [empty_chain] else chs)
      in if py_slice_to line 4 = ''ATOM''
         then (case parse_node line of
                 Inl e \<Rightarrow> (if e = ValueError then Inr chs1 else Inl e)
               | Inr data \<Rightarrow>
                   if chs1 = [] then Inl IndexError
                   else Inr (butlast chs1
                     @ [(last chs1)\<lparr>chain_nodes := chain_nodes (last chs1) @ [data]\<rparr>]))
         else if py_slice_to line 5 = ''HELIX''
         then (case parse_helix line chs1 of
                 Inl e \<Rightarrow> (if e = ValueError then Inr chs1 else Inl e)
               | Inr (data, i) \<Rightarrow>
                   if length chs1 \<le> i then Inl IndexError
                   else Inr (chs1[i := (chs1 ! i)
                     \<lparr>chain_helices := chain_helices (chs1 ! i) @ [data]\<rparr>]))
         else if py_slice_to line 5 = ''SHEET''
         then (case parse_sheet line chs1 of
                 Inl e \<Rightarrow> (if e = ValueError then Inr chs1 else Inl e)
               | Inr (data, i) \<Rightarrow>
                   if length chs1 \<le> i then Inl IndexError
                   else Inr (chs1[i := (chs1 ! i)
                     \<lparr>chain_sheets := chain_sheets (chs1 ! i) @ [data]\<rparr>]))
         else Inr chs1)"

fun read_pdb_loop :: "chain list \<Rightarrow> string list \<Rightarrow> error + chain list" where
  "read_pdb_loop chs [] = Inr chs"
| "read_pdb_loop chs (line # rest) =
     (case read_pdb_line chs line of
        Inl e \<Rightarrow> Inl e
      | Inr chs' \<Rightarrow> read_pdb_loop chs' rest)"

definition read_pdb :: "string \<Rightarrow> error + chain list" where
  "read_pdb content = read_pdb_loop [empty_chain] (file_lines content)"

subsection \<open>What a round trip through the file preserves\<close>

text \<open>
  Notions for the round trip of \<^verbatim>\<open>write_pdb\<close> and \<^verbatim>\<open>read_pdb\<close>. A coordinate comes back
  rounded to three decimals (\<open>round_3f\<close>). The three blocks of lines of a file are
  \<open>atom_lines\<close>, \<open>helix_lines\<close> and \<open>sheet_lines\<close>; the numbers in them consist of
  digits, blanks, signs and points (\<open>is_field_char\<close>), and every line ends with its only
  line feed (\<open>is_record\<close>). A list of chains is \<open>writable\<close> when
  every helix range is a half-open range of its chain's nodes, every sheet range names a
  first and a last node of its chain, the text of every coordinate has at most seven
  characters, and all numbers of nodes fit in four columns.
\<close>

definition round_3f :: "real \<Rightarrow> real" where
  "round_3f x =
     (if x < 0 then - 1 else 1) * (real (nat (round_half_even (\<bar>x\<bar> * 1000))) / 1000)"

definition round_point :: "point \<Rightarrow> point" where
  "round_point p = (case p of (x, y, z) \<Rightarrow> (round_3f x, round_3f y, round_3f z))"

definition read_back :: "chain \<Rightarrow> chain" where
  "read_back ch = ch\<lparr>chain_nodes := map round_point (chain_nodes ch)\<rparr>"

fun atom_lines :: "chain list \<Rightarrow> int \<Rightarrow> string list" where
  "atom_lines [] offset = []"
| "atom_lines (ch # rest) offset =
     map (\<lambda>i. format_node (chain_nodes ch ! i) ''A'' (offset + int i + 1))
       [0 ..< length (chain_nodes ch)]
     @ [''TER'' @ [newline]]
     @ atom_lines rest (offset + int (length (chain_nodes ch)) + 1)"

fun helix_lines :: "chain list \<Rightarrow> int \<Rightarrow> string list" where
  "helix_lines [] offset = []"
| "helix_lines (ch # rest) offset =
     map (\<lambda>(helix_start, helix_end).
            format_helix_info ''A'' (helix_start + offset) (helix_end + offset))
       (chain_helices ch)
     @ helix_lines rest (offset + int (length (chain_nodes ch)) + 1)"

fun sheet_lines :: "chain list \<Rightarrow> int \<Rightarrow> string list" where
  "sheet_lines [] offset = []"
| "sheet_lines (ch # rest) offset =
     map (\<lambda>(sheet_start, sheet_end).
            format_sheet_info ''A'' (sheet_start + offset) (sheet_end + offset))
       (chain_sheets ch)
     @ sheet_lines rest (offset + int (length (chain_nodes ch)) + 1)"

definition is_field_char :: "char \<Rightarrow> bool" where
  "is_field_char ch = (is_digit ch \<or> ch = CHR '' '' \<or> ch = CHR ''-'' \<or> ch = CHR ''.'')"

definition is_record :: "string \<Rightarrow> bool" where
  "is_record line = (line \<noteq> [] \<and> last line = newline \<and> newline \<notin> set (butlast line))"

definition valid_helix :: "nat \<Rightarrow> node_range \<Rightarrow> bool" where
  "valid_helix n r = (0 \<le> fst r \<and> fst r \<le> snd r \<and> snd r \<le> int n)"

definition valid_sheet :: "nat \<Rightarrow> node_range \<Rightarrow> bool" where
  "valid_sheet n r = (0 \<le> fst r \<and> fst r \<le> snd r \<and> snd r < int n)"

definition short_text :: "point \<Rightarrow> bool" where
  "short_text p =
     (case p of (x, y, z) \<Rightarrow>
        length (format_3f x) \<le> 7 \<and> length (format_3f y) \<le> 7 \<and> length (format_3f z) \<le> 7)"

definition writable_chain :: "chain \<Rightarrow> bool" where
  "writable_chain ch =
     (list_all (valid_helix (length (chain_nodes ch))) (chain_helices ch) \<and>
      list_all (valid_sheet (length (chain_nodes ch))) (chain_sheets ch) \<and>
      list_all short_text (chain_nodes ch))"

definition total_size :: "chain list \<Rightarrow> int" where
  "total_size chs = sum_list (map (\<lambda>ch. int (length (chain_nodes ch)) + 1) chs)"

definition writable :: "chain list \<Rightarrow> bool" where
  "writable chs = (list_all writable_chain chs \<and> total_size chs \<le> 9999)"

subsection \<open>Measures for the termination of the refinement\<close>

text \<open>
  Two notions that only the termination proof uses. The weight of a range bounds the
  number of rounds the loop can spend on it and on the ranges it is split into. A family
  is a list of ranges in which every range ends before the later ones begin and end, as
  the parts of a split range do.
\<close>

definition range_weight :: "node_range \<Rightarrow> nat" where
  "range_weight r = (if snd r - fst r < 1 then 1 else nat (2 * (snd r - fst r) - 1))"

fun ordered_family :: "node_range list \<Rightarrow> bool" where
  "ordered_family [] = True"
| "ordered_family (r # rs) =
     ((\<forall>q \<in> set rs. snd r \<le> fst q \<and> snd r \<le> snd q) \<and> ordered_family rs)"

section \<open>Properties\<close>

subsection \<open>Vector arithmetic\<close>

lemma norm3_nonneg: "0 \<le> norm3 v"
  by (cases v) (simp add: norm3_def)

lemma norm3_zero_iff: "norm3 v = 0 \<longleftrightarrow> v = (0, 0, 0)"
proof (cases v)
  case (fields a b c)
  have "(a * a + b * b) + c * c = 0 \<longleftrightarrow> a * a + b * b = 0 \<and> c * c = 0"
    by (rule add_nonneg_eq_0_iff) simp_all
  then have "a * a + b * b + c * c = 0 \<longleftrightarrow> a = 0 \<and> b = 0 \<and> c = 0"
    by (simp add: sum_squares_eq_zero_iff)
  then show ?thesis
    using fields by (simp add: norm3_def)
qed

lemma get_vector_zero_iff: "get_vector a b = (0, 0, 0) \<longleftrightarrow> a = b"
  by (cases a; cases b) (auto simp: get_vector_def)

lemma vadd_smul_zero: "vadd a (smul 0 v) = a"
  by (cases a; cases v) (simp add: vadd_def smul_def)

lemma curve_length_nonneg: "0 \<le> curve_length nodes"
  by (induction nodes rule: curve_length.induct) (simp_all add: norm3_nonneg)

subsection \<open>Position on a curve\<close>

lemma Curve_call_zero:
  "0 < curve_length nodes \<Longrightarrow> Curve_call nodes 0 = Some (hd nodes)"
proof (induction nodes rule: curve_length.induct)
  case (1 a b rest)
  show ?case
  proof (cases "0 < norm3 (get_vector a b)")
    case True
    then show ?thesis by (simp add: vadd_smul_zero)
  next
    case False
    then have z: "norm3 (get_vector a b) = 0"
      using norm3_nonneg [of "get_vector a b"] by simp
    then have "a = b"
      by (simp add: norm3_zero_iff get_vector_zero_iff)
    moreover have "Curve_call (b # rest) 0 = Some (hd (b # rest))"
      using 1 z by simp
    ultimately show ?thesis
      using z by simp
  qed
qed simp_all

lemma Curve_call_beyond:
  "curve_length nodes \<le> t \<Longrightarrow> Curve_call nodes t = None"
proof (induction nodes arbitrary: t rule: curve_length.induct)
  case (1 a b rest)
  have "norm3 (get_vector a b) \<le> t"
    using 1(2) curve_length_nonneg [of "b # rest"] by simp
  moreover have "Curve_call (b # rest) (t - norm3 (get_vector a b)) = None"
    using 1 by simp
  ultimately show ?case by simp
qed simp_all

lemma Curve_call_within_nonneg:
  "0 \<le> t \<Longrightarrow> t < curve_length nodes \<Longrightarrow> Curve_call nodes t \<noteq> None"
proof (induction nodes arbitrary: t rule: curve_length.induct)
  case (1 a b rest)
  show ?case
  proof (cases "t < norm3 (get_vector a b)")
    case True
    then show ?thesis by (simp add: Let_def)
  next
    case False
    moreover have "Curve_call (b # rest) (t - norm3 (get_vector a b)) \<noteq> None"
      using 1 False by simp
    ultimately show ?thesis by (simp add: Let_def)
  qed
qed simp_all

lemma Curve_call_negative:
  "t < 0 \<Longrightarrow> Curve_call (a # b # rest) t =
     Some (vadd a (smul (t / norm3 (get_vector a b)) (get_vector a b)))"
  using norm3_nonneg [of "get_vector a b"] by (simp add: Let_def)

lemma Curve_call_within:
  assumes "2 \<le> length nodes" and "t < curve_length nodes"
  shows "Curve_call nodes t \<noteq> None"
proof (cases "0 \<le> t")
  case True
  then show ?thesis using assms(2) by (rule Curve_call_within_nonneg)
next
  case False
  obtain a b rest where "nodes = a # b # rest"
    using assms(1) by (cases nodes; cases "tl nodes") auto
  then show ?thesis
    using False Curve_call_negative [of t a b rest] by simp
qed

text \<open>
  Claim C2, as the code has it. For a curve of at least two control points and positive
  total arc length \<open>L\<close>, the position at \<open>0\<close> is the first control point and every
  \<open>t < L\<close> has a position, but the comparison \<^verbatim>\<open>distance_to_next > t\<close> is strict: the
  position at \<open>t = L\<close> is already \<open>None\<close>, as it is for every \<open>t > L\<close>.
\<close>

theorem Curve_call_boundaries:
  assumes "2 \<le> length nodes" and "0 < curve_length nodes"
  shows "Curve_call nodes 0 = Some (hd nodes) \<and>
         (\<forall>t. t < curve_length nodes \<longrightarrow> Curve_call nodes t \<noteq> None) \<and>
         (\<forall>t. curve_length nodes \<le> t \<longrightarrow> Curve_call nodes t = None)"
  using assms Curve_call_zero [of nodes] Curve_call_beyond [of nodes]
    Curve_call_within [of nodes]
  by simp

theorem Curve_call_boundaries_witness:
  "Curve_call [(0, 0, 0), (1, 0, 0), (1, 1, 0)] 0 = Some (0, 0, 0) \<and>
   curve_length [(0, 0, 0), (1, 0, 0), (1, 1, 0)] = 2 \<and>
   Curve_call [(0, 0, 0), (1, 0, 0), (1, 1, 0)] 2 = None"
proof -
  have l: "curve_length [(0, 0, 0), (1, 0, 0), (1, 1, 0)] = 2"
    by (simp add: get_vector_def norm3_def)
  show ?thesis
    using Curve_call_boundaries [of "[(0, 0, 0), (1, 0, 0), (1, 1, 0)]"] l
    by simp
qed

text \<open>
  The claim as the specification states it asks for the last control point at \<open>t = L\<close>.
  On the unit segment from the origin the code returns \<open>None\<close> there.
\<close>

theorem Curve_call_end_counterexample:
  "2 \<le> length [(0, 0, 0), (1, 0, 0) :: point] \<and>
   0 < curve_length [(0, 0, 0), (1, 0, 0)] \<and>
   Curve_call [(0, 0, 0), (1, 0, 0)] (curve_length [(0, 0, 0), (1, 0, 0)])
     \<noteq> Some (last [(0, 0, 0), (1, 0, 0)])"
  by (simp add: get_vector_def norm3_def)

subsection \<open>Index rebasing\<close>

lemma update_sec_structure_length:
  "length (update_sec_structure ss node_start diff) = length ss"
  by (induction ss node_start diff rule: update_sec_structure.induct) simp_all

lemma update_sec_structure_nth:
  "k < length ss \<Longrightarrow>
     update_sec_structure ss node_start diff ! k =
       ((if fst (ss ! k) > node_start then fst (ss ! k) + diff else fst (ss ! k)),
        (if snd (ss ! k) > node_start then snd (ss ! k) + diff else snd (ss ! k)))"
proof (induction ss node_start diff arbitrary: k rule: update_sec_structure.induct)
  case (1 node_start diff)
  then show ?case by simp
next
  case (2 s e rest node_start diff)
  then show ?case by (cases k) simp_all
qed

lemma update_sec_structure_zero: "update_sec_structure ss node_start 0 = ss"
  by (induction ss node_start "0 :: int" rule: update_sec_structure.induct) simp_all

text \<open>
  Claim C4. \<^verbatim>\<open>update_sec_structure\<close> keeps the number of ranges, adds \<open>diff\<close> to exactly
  the start and end boundaries that are strictly greater than \<open>node_start\<close>, leaves every
  boundary that is at most \<open>node_start\<close> as it was, and with \<open>diff = 0\<close> changes nothing.
\<close>

theorem update_sec_structure_rebases:
  "length (update_sec_structure ss node_start diff) = length ss \<and>
   (\<forall>k < length ss.
      fst (update_sec_structure ss node_start diff ! k) =
        (if fst (ss ! k) > node_start then fst (ss ! k) + diff else fst (ss ! k)) \<and>
      snd (update_sec_structure ss node_start diff ! k) =
        (if snd (ss ! k) > node_start then snd (ss ! k) + diff else snd (ss ! k))) \<and>
   update_sec_structure ss node_start 0 = ss"
  by (simp add: update_sec_structure_length update_sec_structure_nth
      update_sec_structure_zero)

theorem update_sec_structure_rebases_witness:
  "update_sec_structure [(1, 5), (7, 9), (5, 6)] 5 3 = [(1, 5), (10, 12), (5, 9)] \<and>
   snd (update_sec_structure [(1, 5), (7, 9), (5, 6)] 5 3 ! 2) = 9 \<and>
   update_sec_structure [(1, 5), (7, 9), (5, 6)] 5 0 = [(1, 5), (7, 9), (5, 6)]"
  using update_sec_structure_rebases [of "[(1, 5), (7, 9), (5, 6)]" 5 3]
  by simp

subsection \<open>Splitting a helix\<close>

lemma py_index_valid:
  "0 \<le> j \<Longrightarrow> j < int (length xs) \<Longrightarrow> py_index xs j = Inr (xs ! nat j)"
  by (simp add: py_index_def)

lemma closest_node_loop_some:
  assumes "sorted_wrt (<) js" and "\<forall>j \<in> set js. 0 \<le> j \<and> j < int (length nodes)"
  shows "\<exists>r. closest_node_loop nodes node c (Some d) js = Inr r \<and>
           ((r = c \<and> (\<forall>j \<in> set js. d \<le> get_distance (nodes ! nat j) node)) \<or>
            (r \<in> set js \<and> get_distance (nodes ! nat r) node < d \<and>
             (\<forall>j \<in> set js. get_distance (nodes ! nat r) node \<le> get_distance (nodes ! nat j) node) \<and>
             (\<forall>j \<in> set js. j < r \<longrightarrow>
                get_distance (nodes ! nat r) node < get_distance (nodes ! nat j) node)))"
  using assms
proof (induction js arbitrary: c d)
  case Nil
  then show ?case by simp
next
  case (Cons j0 js)
  have v: "py_index nodes j0 = Inr (nodes ! nat j0)"
    using Cons.prems(2) by (simp add: py_index_valid)
  have s: "sorted_wrt (<) js" and b: "\<forall>j \<in> set js. 0 \<le> j \<and> j < int (length nodes)"
    and lt: "\<forall>j \<in> set js. j0 < j"
    using Cons.prems by simp_all
  show ?case
  proof (cases "get_distance (nodes ! nat j0) node < d")
    case True
    from Cons.IH [OF s b, of j0 "get_distance (nodes ! nat j0) node"]
    obtain r where r: "closest_node_loop nodes node j0 (Some (get_distance (nodes ! nat j0) node)) js = Inr r"
      and alt: "(r = j0 \<and> (\<forall>j \<in> set js. get_distance (nodes ! nat j0) node \<le> get_distance (nodes ! nat j) node)) \<or>
            (r \<in> set js \<and> get_distance (nodes ! nat r) node < get_distance (nodes ! nat j0) node \<and>
             (\<forall>j \<in> set js. get_distance (nodes ! nat r) node \<le> get_distance (nodes ! nat j) node) \<and>
             (\<forall>j \<in> set js. j < r \<longrightarrow>
                get_distance (nodes ! nat r) node < get_distance (nodes ! nat j) node))"
      by blast
    have "closest_node_loop nodes node c (Some d) (j0 # js) = Inr r"
      using True v r by simp
    moreover from alt have "r \<in> set (j0 # js) \<and> get_distance (nodes ! nat r) node < d \<and>
             (\<forall>j \<in> set (j0 # js). get_distance (nodes ! nat r) node \<le> get_distance (nodes ! nat j) node) \<and>
             (\<forall>j \<in> set (j0 # js). j < r \<longrightarrow>
                get_distance (nodes ! nat r) node < get_distance (nodes ! nat j) node)"
      using True lt by auto
    ultimately show ?thesis by blast
  next
    case False
    from Cons.IH [OF s b, of c d]
    obtain r where r: "closest_node_loop nodes node c (Some d) js = Inr r"
      and alt: "(r = c \<and> (\<forall>j \<in> set js. d \<le> get_distance (nodes ! nat j) node)) \<or>
            (r \<in> set js \<and> get_distance (nodes ! nat r) node < d \<and>
             (\<forall>j \<in> set js. get_distance (nodes ! nat r) node \<le> get_distance (nodes ! nat j) node) \<and>
             (\<forall>j \<in> set js. j < r \<longrightarrow>
                get_distance (nodes ! nat r) node < get_distance (nodes ! nat j) node))"
      by blast
    have "closest_node_loop nodes node c (Some d) (j0 # js) = Inr r"
      using False v r by simp
    moreover from alt have "(r = c \<and> (\<forall>j \<in> set (j0 # js). d \<le> get_distance (nodes ! nat j) node)) \<or>
            (r \<in> set (j0 # js) \<and> get_distance (nodes ! nat r) node < d \<and>
             (\<forall>j \<in> set (j0 # js). get_distance (nodes ! nat r) node \<le> get_distance (nodes ! nat j) node) \<and>
             (\<forall>j \<in> set (j0 # js). j < r \<longrightarrow>
                get_distance (nodes ! nat r) node < get_distance (nodes ! nat j) node))"
      using False by auto
    ultimately show ?thesis by blast
  qed
qed

lemma closest_node_loop_none:
  assumes "sorted_wrt (<) js" and "\<forall>j \<in> set js. 0 \<le> j \<and> j < int (length nodes)"
    and "js \<noteq> []"
  shows "\<exists>r. closest_node_loop nodes node c None js = Inr r \<and> r \<in> set js \<and>
             (\<forall>j \<in> set js. get_distance (nodes ! nat r) node \<le> get_distance (nodes ! nat j) node) \<and>
             (\<forall>j \<in> set js. j < r \<longrightarrow>
                get_distance (nodes ! nat r) node < get_distance (nodes ! nat j) node)"
proof -
  obtain j0 js' where js: "js = j0 # js'"
    using assms(3) by (cases js) auto
  have v: "py_index nodes j0 = Inr (nodes ! nat j0)"
    using assms(2) js by (simp add: py_index_valid)
  have s: "sorted_wrt (<) js'" and b: "\<forall>j \<in> set js'. 0 \<le> j \<and> j < int (length nodes)"
    and lt: "\<forall>j \<in> set js'. j0 < j"
    using assms js by simp_all
  from closest_node_loop_some [OF s b, of node j0 "get_distance (nodes ! nat j0) node"]
  obtain r where r: "closest_node_loop nodes node j0 (Some (get_distance (nodes ! nat j0) node)) js' = Inr r"
      and alt: "(r = j0 \<and> (\<forall>j \<in> set js'. get_distance (nodes ! nat j0) node \<le> get_distance (nodes ! nat j) node)) \<or>
            (r \<in> set js' \<and> get_distance (nodes ! nat r) node < get_distance (nodes ! nat j0) node \<and>
             (\<forall>j \<in> set js'. get_distance (nodes ! nat r) node \<le> get_distance (nodes ! nat j) node) \<and>
             (\<forall>j \<in> set js'. j < r \<longrightarrow>
                get_distance (nodes ! nat r) node < get_distance (nodes ! nat j) node))"
    by blast
  have "closest_node_loop nodes node c None js = Inr r"
    using js v r by simp
  moreover from alt have "r \<in> set js \<and>
             (\<forall>j \<in> set js. get_distance (nodes ! nat r) node \<le> get_distance (nodes ! nat j) node) \<and>
             (\<forall>j \<in> set js. j < r \<longrightarrow>
                get_distance (nodes ! nat r) node < get_distance (nodes ! nat j) node)"
    using lt js by auto
  ultimately show ?thesis by blast
qed


text \<open>
  Claim C3. For a helix range \<open>[start, end)\<close> of at least two nodes that lies inside the
  nodes of its chain, \<^verbatim>\<open>split_helix_at_node\<close> finds the first node of the range that is
  nearest to the given axis point, moves one node on when that is the start of the range,
  and puts \<open>[start, closest)\<close> and \<open>[closest, end)\<close>, in this order, where the range
  stood. Both parts are nonempty; together they are the range, and they do not overlap.
\<close>

theorem split_helix_at_node_ranges:
  assumes "i < length (chain_helices ch)"
    and "chain_helices ch ! i = (helix_start, helix_end)"
    and "2 \<le> helix_end - helix_start"
    and "0 \<le> helix_start"
    and "helix_end \<le> int (length (chain_nodes ch))"
  shows "\<exists>found closest.
           found \<in> {helix_start ..< helix_end} \<and>
           (\<forall>j \<in> {helix_start ..< helix_end}.
              get_distance (chain_nodes ch ! nat found) node
                \<le> get_distance (chain_nodes ch ! nat j) node) \<and>
           (\<forall>j \<in> {helix_start ..< found}.
              get_distance (chain_nodes ch ! nat found) node
                < get_distance (chain_nodes ch ! nat j) node) \<and>
           closest = (if found = helix_start then found + 1 else found) \<and>
           split_helix_at_node node ch i =
             Inr (ch\<lparr>chain_helices :=
               take i (chain_helices ch)
                 @ [(helix_start, closest), (closest, helix_end)]
                 @ drop (Suc i) (chain_helices ch)\<rparr>) \<and>
           {helix_start ..< closest} \<noteq> {} \<and> {closest ..< helix_end} \<noteq> {} \<and>
           {helix_start ..< closest} \<union> {closest ..< helix_end} = {helix_start ..< helix_end} \<and>
           {helix_start ..< closest} \<inter> {closest ..< helix_end} = {}"
proof -
  let ?js = "[helix_start .. helix_end - 1]"
  have "sorted_wrt (<) ?js"
    by (simp add: sorted_wrt_upto)
  moreover have "\<forall>j \<in> set ?js. 0 \<le> j \<and> j < int (length (chain_nodes ch))"
    using assms(4,5) by auto
  moreover have "?js \<noteq> []"
    using assms(3) by simp
  ultimately obtain found where
    run: "closest_node_loop (chain_nodes ch) node (- 1) None ?js = Inr found"
    and mem: "found \<in> set ?js"
    and least: "\<forall>j \<in> set ?js. get_distance (chain_nodes ch ! nat found) node
                  \<le> get_distance (chain_nodes ch ! nat j) node"
    and first: "\<forall>j \<in> set ?js. j < found \<longrightarrow>
                  get_distance (chain_nodes ch ! nat found) node
                    < get_distance (chain_nodes ch ! nat j) node"
    using closest_node_loop_none [of ?js "chain_nodes ch" node "- 1"] by blast
  define closest where "closest = (if found = helix_start then found + 1 else found)"
  have bounds: "helix_start < closest" "closest < helix_end"
    using mem assms(3) by (auto simp: closest_def)
  have "split_helix_at_node node ch i =
          Inr (ch\<lparr>chain_helices :=
            take i (chain_helices ch)
              @ [(helix_start, closest), (closest, helix_end)]
              @ drop (Suc i) (chain_helices ch)\<rparr>)"
    using assms(1,2) run by (simp add: split_helix_at_node_def closest_def Let_def)
  moreover have "{helix_start ..< closest} \<union> {closest ..< helix_end} = {helix_start ..< helix_end}"
    using bounds by (intro ivl_disj_un) simp_all
  moreover have "{helix_start ..< closest} \<inter> {closest ..< helix_end} = {}"
    by auto
  moreover have "{helix_start ..< closest} \<noteq> {}" "{closest ..< helix_end} \<noteq> {}"
    using bounds by simp_all
  moreover have "found \<in> {helix_start ..< helix_end}"
    using mem by auto
  moreover have "\<forall>j \<in> {helix_start ..< helix_end}.
              get_distance (chain_nodes ch ! nat found) node
                \<le> get_distance (chain_nodes ch ! nat j) node"
    using least by auto
  moreover have "\<forall>j \<in> {helix_start ..< found}.
              get_distance (chain_nodes ch ! nat found) node
                < get_distance (chain_nodes ch ! nat j) node"
    using first mem by auto
  ultimately show ?thesis
    using closest_def by blast
qed

theorem split_helix_at_node_ranges_witness:
  "1 < length [(0, 1), (0, 4), (2, 3 :: int)] \<and>
   (\<exists>closest.
      split_helix_at_node (2, 1, 0)
        \<lparr>chain_nodes = [(0, 0, 0), (1, 0, 0), (2, 0, 0), (3, 0, 0)],
         chain_sheets = [], chain_helices = [(0, 1), (0, 4), (2, 3)]\<rparr> 1 =
      Inr \<lparr>chain_nodes = [(0, 0, 0), (1, 0, 0), (2, 0, 0), (3, 0, 0)],
         chain_sheets = [], chain_helices = [(0, 1), (0, closest), (closest, 4), (2, 3)]\<rparr> \<and>
      0 < closest \<and> closest < 4)"
proof -
  let ?ch = "\<lparr>chain_nodes = [(0, 0, 0), (1, 0, 0), (2, 0, 0), (3, 0, 0)],
         chain_sheets = [], chain_helices = [(0, 1), (0, 4), (2, 3)]\<rparr>"
  have "1 < length (chain_helices ?ch)" "chain_helices ?ch ! 1 = (0, 4)"
    "2 \<le> (4 :: int) - 0" "(0 :: int) \<le> 0" "4 \<le> int (length (chain_nodes ?ch))"
    by simp_all
  from split_helix_at_node_ranges [OF this, of "(2, 1, 0)"]
  obtain closest where
    "split_helix_at_node (2, 1, 0) ?ch 1 =
       Inr (?ch\<lparr>chain_helices := take 1 (chain_helices ?ch)
              @ [(0, closest), (closest, 4)] @ drop (Suc 1) (chain_helices ?ch)\<rparr>)"
    and "{0 ..< closest} \<noteq> {}" and "{closest ..< 4} \<noteq> {}"
    by blast
  then show ?thesis
    by auto
qed

subsection \<open>Generating the nodes of a helix\<close>

lemma Curve_get_vector_None_iff:
  "Curve_get_vector screw_axis t = None \<longleftrightarrow> Curve_call screw_axis t = None"
  by (induction screw_axis t rule: Curve_call.induct) (simp_all add: Let_def)

lemma Curve_get_vector_negative:
  "t < 0 \<Longrightarrow> Curve_get_vector (a # b # rest) t = Some (get_vector a b)"
  using norm3_nonneg [of "get_vector a b"] by (simp add: Let_def)

lemma set_nodes_loop_returns:
  assumes "0 < h_gap h"
  shows "\<exists>generated. set_nodes_loop h screw_axis shift rotation t nodes = Some (Inr (nodes @ generated))"
proof (induction "nat \<lceil>(curve_length screw_axis - t) / h_gap h\<rceil>" arbitrary: t nodes
    rule: less_induct)
  case less
  show ?case
  proof (cases "Curve_call screw_axis t")
    case None
    then show ?thesis
      by (subst set_nodes_loop.simps) simp
  next
    case (Some position)
    then obtain direction where d: "Curve_get_vector screw_axis t = Some direction"
      using Curve_get_vector_None_iff [of screw_axis t] by (cases "Curve_get_vector screw_axis t") auto
    have "t < curve_length screw_axis"
      using Some Curve_call_beyond [of screw_axis t] by (cases "t < curve_length screw_axis") auto
    then have pos: "0 < (curve_length screw_axis - t) / h_gap h"
      using assms by simp
    have "(curve_length screw_axis - (t + h_gap h)) / h_gap h = (curve_length screw_axis - t) / h_gap h - 1"
      using assms by (simp add: field_simps)
    then have "\<lceil>(curve_length screw_axis - (t + h_gap h)) / h_gap h\<rceil>
                 = \<lceil>(curve_length screw_axis - t) / h_gap h\<rceil> - 1"
      by simp
    moreover have "0 < \<lceil>(curve_length screw_axis - t) / h_gap h\<rceil>"
      using pos by simp
    ultimately have "nat \<lceil>(curve_length screw_axis - (t + h_gap h)) / h_gap h\<rceil>
        < nat \<lceil>(curve_length screw_axis - t) / h_gap h\<rceil>"
      by simp
    from less [OF this, of "nodes @ [helix_node h shift rotation t position direction]"]
    obtain generated where
      "set_nodes_loop h screw_axis shift rotation (t + h_gap h)
         (nodes @ [helix_node h shift rotation t position direction])
       = Some (Inr ((nodes @ [helix_node h shift rotation t position direction]) @ generated))"
      by blast
    then have "set_nodes_loop h screw_axis shift rotation t nodes
       = Some (Inr (nodes @ (helix_node h shift rotation t position direction # generated)))"
      using Some d by (subst set_nodes_loop.simps) simp
    then show ?thesis by blast
  qed
qed

lemma set_nodes_returns:
  "0 < h_gap h \<Longrightarrow> \<exists>generated. set_nodes h screw_axis shift rotation = Some (Inr generated)"
  using set_nodes_loop_returns [of h screw_axis shift rotation shift "[]"]
  by (simp add: set_nodes_def)

lemma set_nodes_first:
  assumes "0 < h_gap h" and "Curve_call screw_axis shift = Some position"
    and "Curve_get_vector screw_axis shift = Some direction"
  shows "\<exists>generated. set_nodes h screw_axis shift rotation =
           Some (Inr (helix_node h shift rotation shift position direction # generated))"
proof -
  obtain generated where
    "set_nodes_loop h screw_axis shift rotation (shift + h_gap h)
         ([] @ [helix_node h shift rotation shift position direction])
       = Some (Inr (([] @ [helix_node h shift rotation shift position direction]) @ generated))"
    using set_nodes_loop_returns [OF assms(1)] by blast
  then have "set_nodes h screw_axis shift rotation =
           Some (Inr (helix_node h shift rotation shift position direction # generated))"
    unfolding set_nodes_def using assms(2,3) by (subst set_nodes_loop.simps) simp
  then show ?thesis by blast
qed

lemma set_nodes_empty:
  "Curve_call screw_axis shift = None \<Longrightarrow> set_nodes h screw_axis shift rotation = Some (Inr [])"
  unfolding set_nodes_def by (subst set_nodes_loop.simps) simp

text \<open>The vector that is added to the position on the axis is orthogonal to the axis.\<close>

lemma dot_cross_left: "dot (cross p q) p = 0"
  by (cases p; cases q) (simp add: dot_def cross_def algebra_simps)

lemma dot_smul_left: "dot (smul k p) q = k * dot p q"
  by (cases p; cases q) (simp add: dot_def smul_def algebra_simps)

lemma dot_smul_right: "dot p (smul k q) = k * dot p q"
  by (cases p; cases q) (simp add: dot_def smul_def algebra_simps)

lemma dot_vadd_left: "dot (vadd p q) u = dot p u + dot q u"
  by (cases p; cases q; cases u) (simp add: dot_def vadd_def algebra_simps)

lemma dot_normalize_left: "dot p q = 0 \<Longrightarrow> dot (normalize p) q = 0"
  by (simp add: normalize_def Let_def dot_smul_left)

lemma dot_self: "dot v v = (norm3 v)\<^sup>2"
  by (cases v) (simp add: dot_def norm3_def add_nonneg_nonneg)

lemma vsub_vadd: "vsub (vadd p q) p = q"
  by (cases p; cases q) (simp add: vsub_def vadd_def)

lemma helix_node_orthogonal:
  assumes "0 < norm3 direction"
  shows "dot (vsub (helix_node h shift rotation t position direction) position) direction = 0"
proof -
  define z_axis where "z_axis = smul (- 1) (normalize direction)"
  define y_axis where "y_axis = smul (- 1) (normalize (cross z_axis (1, 0, 0)))"
  define x_axis where "x_axis = smul (- 1) (normalize (cross z_axis y_axis))"
  have dir: "direction = smul (- norm3 direction) z_axis"
    using assms by (cases direction) (simp add: z_axis_def normalize_def smul_def Let_def)
  have "dot y_axis z_axis = 0" "dot x_axis z_axis = 0"
    by (simp_all add: y_axis_def x_axis_def dot_smul_left dot_normalize_left dot_cross_left)
  then have "dot y_axis direction = 0" "dot x_axis direction = 0" "dot (smul 0 z_axis) direction = 0"
    by (subst dir, simp add: dot_smul_right dot_smul_left)+
  then show ?thesis
    unfolding helix_node_def Let_def vsub_vadd vecmat_def
    by (simp add: dot_vadd_left dot_smul_left z_axis_def y_axis_def x_axis_def)
qed

lemma dot_vsub_split: "dot (vsub n a) v = dot (vsub n p) v + dot (vsub p a) v"
  by (cases n; cases a; cases v; cases p) (simp add: dot_def vsub_def algebra_simps)

text \<open>
  Claim C9. On a curve whose first segment has positive length, a negative parameter
  \<open>t\<close> has a position and a direction: the position is the first control point plus
  \<open>t / segment length\<close> times the vector of the first segment, the direction is that
  vector. So \<^verbatim>\<open>_set_nodes\<close> with a negative shift (and a positive gap) returns a list whose
  first node is generated at that position; measured from the first control point along
  the first segment, this node lies at \<open>shift \<times> segment length < 0\<close>, before the start of
  the screw axis.
\<close>

theorem Curve_negative_parameter:
  assumes "t < 0" and "0 < norm3 (get_vector a b)"
  shows "Curve_call (a # b # rest) t =
           Some (vadd a (smul (t / norm3 (get_vector a b)) (get_vector a b))) \<and>
         Curve_get_vector (a # b # rest) t = Some (get_vector a b) \<and>
         (0 < h_gap h \<longrightarrow>
           (\<exists>first generated.
              first = helix_node h t rotation t
                 (vadd a (smul (t / norm3 (get_vector a b)) (get_vector a b))) (get_vector a b) \<and>
              set_nodes h (a # b # rest) t rotation = Some (Inr (first # generated)) \<and>
              dot (vsub first a) (get_vector a b) = t * norm3 (get_vector a b) \<and>
              dot (vsub first a) (get_vector a b) < 0))"
proof -
  let ?v = "get_vector a b"
  let ?p = "vadd a (smul (t / norm3 ?v) ?v)"
  let ?first = "helix_node h t rotation t ?p ?v"
  have pos: "Curve_call (a # b # rest) t = Some ?p"
    using assms(1) by (rule Curve_call_negative)
  have dir: "Curve_get_vector (a # b # rest) t = Some ?v"
    using assms(1) by (rule Curve_get_vector_negative)
  have "dot (vsub ?first a) ?v = dot (vsub ?first ?p) ?v + dot (vsub ?p a) ?v"
    by (rule dot_vsub_split)
  also have "dot (vsub ?first ?p) ?v = 0"
    using assms(2) by (rule helix_node_orthogonal)
  also have "dot (vsub ?p a) ?v = (t / norm3 ?v) * (norm3 ?v)\<^sup>2"
    by (simp add: vsub_vadd dot_smul_left dot_self)
  also have "\<dots> = t * norm3 ?v"
    using assms(2) by (simp add: power2_eq_square)
  finally have along: "dot (vsub ?first a) ?v = t * norm3 ?v"
    by simp
  then have before: "dot (vsub ?first a) ?v < 0"
    using assms by (simp add: mult_neg_pos)
  have "0 < h_gap h \<longrightarrow>
          (\<exists>generated. set_nodes h (a # b # rest) t rotation = Some (Inr (?first # generated)))"
    using set_nodes_first [OF _ pos dir] by blast
  then show ?thesis
    using pos dir along before by blast
qed

theorem Curve_negative_parameter_witness:
  "(- 1 :: real) < 0 \<and> 0 < norm3 (get_vector (0, 0, 0) (2, 0, 0)) \<and>
   Curve_call [(0, 0, 0), (2, 0, 0)] (- 1) = Some (- 1, 0, 0) \<and>
   Curve_get_vector [(0, 0, 0), (2, 0, 0)] (- 1) = Some (2, 0, 0) \<and>
   (\<exists>first generated.
      set_nodes alpha_helix [(0, 0, 0), (2, 0, 0)] (- 1) 0 = Some (Inr (first # generated)) \<and>
      dot (vsub first (0, 0, 0)) (2, 0, 0) = - 2)"
proof -
  have n: "norm3 (get_vector (0, 0, 0) (2, 0, 0)) = 2"
    by (simp add: get_vector_def norm3_def)
  have g: "0 < h_gap alpha_helix"
    by (simp add: alpha_helix_def)
  have v: "get_vector (0, 0, 0) (2, 0, 0) = (2, 0, 0)"
    by (simp add: get_vector_def)
  have p: "vadd (0, 0, 0) (smul (- 1 / 2) (2, 0, 0)) = (- 1, 0, 0)"
    by (simp add: vadd_def smul_def)
  have t: "(- 1 :: real) < 0"
    by simp
  have l: "0 < norm3 (get_vector (0, 0, 0) (2, 0, 0))"
    using n by simp
  note w = Curve_negative_parameter [OF t l, of "[]" alpha_helix 0]
  from w g obtain first generated where
    f: "set_nodes alpha_helix [(0, 0, 0), (2, 0, 0)] (- 1) 0 = Some (Inr (first # generated))"
    and d: "dot (vsub first (0, 0, 0)) (get_vector (0, 0, 0) (2, 0, 0))
              = - 1 * norm3 (get_vector (0, 0, 0) (2, 0, 0))"
    by blast
  have "dot (vsub first (0, 0, 0)) (2, 0, 0) = - 2"
    using d n by (simp add: v)
  with f have e: "\<exists>first generated.
      set_nodes alpha_helix [(0, 0, 0), (2, 0, 0)] (- 1) 0 = Some (Inr (first # generated)) \<and>
      dot (vsub first (0, 0, 0)) (2, 0, 0) = - 2"
    by blast
  from w have "Curve_call [(0, 0, 0), (2, 0, 0)] (- 1) =
      Some (vadd (0, 0, 0) (smul (- 1 / norm3 (get_vector (0, 0, 0) (2, 0, 0)))
        (get_vector (0, 0, 0) (2, 0, 0))))"
    by blast
  then have c: "Curve_call [(0, 0, 0), (2, 0, 0)] (- 1) = Some (- 1, 0, 0)"
    unfolding n unfolding v p .
  from w have "Curve_get_vector [(0, 0, 0), (2, 0, 0)] (- 1) = Some (get_vector (0, 0, 0) (2, 0, 0))"
    by blast
  then have u: "Curve_get_vector [(0, 0, 0), (2, 0, 0)] (- 1) = Some (2, 0, 0)"
    unfolding v .
  show ?thesis
    using t l c u e by blast
qed

subsection \<open>The average offset\<close>

lemma closest_distance_loop_empty: "closest_distance_loop node1 d [] = d"
  by simp

lemma sum_offsets_loop_empty:
  "sum_offsets_loop s nodes1 [] = s - real (length nodes1)"
  by (induction nodes1 arbitrary: s) simp_all

lemma get_avg_offset_no_generated:
  "nodes1 \<noteq> [] \<Longrightarrow> get_avg_offset nodes1 [] = Inr (- 1)"
  by (simp add: get_avg_offset_def sum_offsets_loop_empty)

lemma get_avg_offset_defined:
  "nodes1 \<noteq> [] \<Longrightarrow> \<exists>d. get_avg_offset nodes1 nodes2 = Inr d"
  by (simp add: get_avg_offset_def)

subsection \<open>Fitting a helix\<close>

lemma screw_axis_shrink_nonempty:
  "screw_axis_shrink h centroids interval = Inr cs \<Longrightarrow> cs \<noteq> [] \<Longrightarrow>
     centroids \<noteq> [] \<or> interval \<noteq> []"
  by (cases interval) (auto split: if_splits)

lemma set_screw_axis_nonempty:
  assumes "set_screw_axis h nodes = Inr screw_axis"
  shows "nodes \<noteq> []"
proof
  assume "nodes = []"
  then have "screw_axis_centroids h nodes = screw_axis_shrink h [] []"
    by (simp add: screw_axis_centroids_def)
  moreover have "screw_axis_shrink h [] [] = Inl IndexError \<or> screw_axis_shrink h [] [] = Inr []"
    by simp
  ultimately show False
    using assms by (auto simp: set_screw_axis_def Curve_init_def split: if_splits)
qed

text \<open>What \<^verbatim>\<open>fit\<close> returns once the screw axis passed the curvature screen.\<close>

lemma fit_after_screen:
  assumes "set_screw_axis h nodes = Inr screw_axis"
    and "get_node_max_angle screw_axis 80 3 = Inr None"
    and "sort_by_key (evaluate_params h screw_axis nodes)
           [minimize (evaluate_params h screw_axis nodes) (- h_gap h, - 2 * pi),
            minimize (evaluate_params h screw_axis nodes) (0, 0),
            minimize (evaluate_params h screw_axis nodes) (h_gap h, 2 * pi)] = Some (Inr sorted_res)"
    and "set_nodes h screw_axis (fst (hd sorted_res)) (snd (hd sorted_res)) = Some (Inr generated)"
  shows "fit h minimize nodes = Some (accept_nodes h nodes generated)"
  using assms by (simp add: fit_def Let_def)

lemma accept_nodes_no_generated:
  "nodes \<noteq> [] \<Longrightarrow> accept_nodes h nodes [] = Inr nodes"
  by (simp add: accept_nodes_def get_avg_offset_no_generated)


subsection \<open>A small helix, evaluated\<close>

text \<open>
  Three nodes whose screw axis is the segment from the origin to \<open>(0, 0, 3/5)\<close>; the
  witnesses below run \<^verbatim>\<open>fit\<close> on them.
\<close>

lemma norm3_z_axis: "norm3 (0, 0, z) = \<bar>z\<bar>"
  by (simp add: norm3_def)

lemma small_screw_axis:
  "h_interval_size h = 9 \<Longrightarrow> h_min_interval_size h = 3 \<Longrightarrow> h_flatten h = 4 \<Longrightarrow>
   set_screw_axis h [(0, 0, - 6 / 5), (4 / 5, 0, 3 / 5), (- 4 / 5, 0, 3 / 5)]
     = Inr [(0, 0, 0), (0, 0, 3 / 5)]"
  by (simp add: set_screw_axis_def screw_axis_centroids_def get_centroid_def vadd_def smul_def
      Curve_init_def)

lemma two_point_curve_screen: "get_node_max_angle [p, q] max_angle interval_size = Inr None"
  by (simp add: get_node_max_angle_def)

lemma small_axis_beyond:
  "3 / 5 \<le> t \<Longrightarrow> Curve_call [(0, 0, 0), (0, 0, 3 / 5)] t = None"
  by (simp add: get_vector_def norm3_z_axis)


lemma sort_by_key_three_equal:
  "f x = Some (Inr k) \<Longrightarrow> sort_by_key f [x, x, x] = Some (Inr [x, x, x])"
  by (simp add: sort_by_key_def)

text \<open>
  Claim C10. \<^verbatim>\<open>get_avg_offset\<close> raises \<^verbatim>\<open>ZeroDivisionError\<close> for an empty first list and
  returns a number for every nonempty one; when the second list is empty that number is
  \<open>- 1\<close>. So when the nodes generated at the best parameters are the empty list, the
  offset \<open>- 1\<close> is outside \<open>(0.8, 1.7]\<close> and \<^verbatim>\<open>fit\<close> returns the original nodes.
\<close>

theorem get_avg_offset_without_generated_nodes:
  "get_avg_offset [] nodes2 = Inl ZeroDivisionError \<and>
   (nodes1 \<noteq> [] \<longrightarrow>
      (\<exists>d. get_avg_offset nodes1 nodes2 = Inr d) \<and> get_avg_offset nodes1 [] = Inr (- 1)) \<and>
   (set_screw_axis h nodes = Inr screw_axis \<longrightarrow>
    get_node_max_angle screw_axis 80 3 = Inr None \<longrightarrow>
    sort_by_key (evaluate_params h screw_axis nodes)
      [minimize (evaluate_params h screw_axis nodes) (- h_gap h, - 2 * pi),
       minimize (evaluate_params h screw_axis nodes) (0, 0),
       minimize (evaluate_params h screw_axis nodes) (h_gap h, 2 * pi)] = Some (Inr sorted_res) \<longrightarrow>
    set_nodes h screw_axis (fst (hd sorted_res)) (snd (hd sorted_res)) = Some (Inr []) \<longrightarrow>
      get_avg_offset nodes [] = Inr (- 1) \<and> \<not> (0.8 < (- 1 :: real) \<and> (- 1 :: real) \<le> 1.7) \<and>
      fit h minimize nodes = Some (Inr nodes))"
proof -
  have "get_avg_offset [] nodes2 = Inl ZeroDivisionError"
    by (simp add: get_avg_offset_def)
  moreover have "nodes1 \<noteq> [] \<longrightarrow>
      (\<exists>d. get_avg_offset nodes1 nodes2 = Inr d) \<and> get_avg_offset nodes1 [] = Inr (- 1)"
    using get_avg_offset_defined [of nodes1 nodes2] get_avg_offset_no_generated [of nodes1]
    by blast
  moreover have "get_avg_offset nodes [] = Inr (- 1) \<and> fit h minimize nodes = Some (Inr nodes)"
    if a: "set_screw_axis h nodes = Inr screw_axis"
      and b: "get_node_max_angle screw_axis 80 3 = Inr None"
      and c: "sort_by_key (evaluate_params h screw_axis nodes)
        [minimize (evaluate_params h screw_axis nodes) (- h_gap h, - 2 * pi),
         minimize (evaluate_params h screw_axis nodes) (0, 0),
         minimize (evaluate_params h screw_axis nodes) (h_gap h, 2 * pi)] = Some (Inr sorted_res)"
      and d: "set_nodes h screw_axis (fst (hd sorted_res)) (snd (hd sorted_res)) = Some (Inr [])"
  proof -
    have ne: "nodes \<noteq> []"
      using a by (rule set_screw_axis_nonempty)
    have "fit h minimize nodes = Some (accept_nodes h nodes [])"
      using a b c d by (rule fit_after_screen)
    then show ?thesis
      using ne by (simp add: accept_nodes_no_generated get_avg_offset_no_generated)
  qed
  ultimately show ?thesis
    by simp
qed

theorem get_avg_offset_without_generated_nodes_witness:
  "set_screw_axis alpha_helix [(0, 0, - 6 / 5), (4 / 5, 0, 3 / 5), (- 4 / 5, 0, 3 / 5)]
     = Inr [(0, 0, 0), (0, 0, 3 / 5)] \<and>
   set_nodes alpha_helix [(0, 0, 0), (0, 0, 3 / 5)] 100 0 = Some (Inr []) \<and>
   get_avg_offset [(0, 0, - 6 / 5), (4 / 5, 0, 3 / 5), (- 4 / 5, 0, 3 / 5)] [] = Inr (- 1) \<and>
   fit alpha_helix (\<lambda>objective start. (100, 0))
       [(0, 0, - 6 / 5), (4 / 5, 0, 3 / 5), (- 4 / 5, 0, 3 / 5)]
     = Some (Inr [(0, 0, - 6 / 5), (4 / 5, 0, 3 / 5), (- 4 / 5, 0, 3 / 5)])"
proof -
  let ?nodes = "[(0, 0, - 6 / 5), (4 / 5, 0, 3 / 5), (- 4 / 5, 0, 3 / 5)] :: point list"
  let ?axis = "[(0, 0, 0), (0, 0, 3 / 5)] :: point list"
  let ?m = "(\<lambda>objective start. (100, 0)) :: minimizer"
  have a: "set_screw_axis alpha_helix ?nodes = Inr ?axis"
    by (rule small_screw_axis) (simp_all add: alpha_helix_def)
  have b: "get_node_max_angle ?axis 80 3 = Inr None"
    by (rule two_point_curve_screen)
  have g: "set_nodes alpha_helix ?axis 100 0 = Some (Inr [])"
    by (rule set_nodes_empty, rule small_axis_beyond) simp
  have "evaluate_params alpha_helix ?axis ?nodes (100, 0) = Some (Inr (- 1))"
    by (simp add: evaluate_params_def g get_avg_offset_no_generated)
  then have c: "sort_by_key (evaluate_params alpha_helix ?axis ?nodes)
      [?m (evaluate_params alpha_helix ?axis ?nodes) (- h_gap alpha_helix, - 2 * pi),
       ?m (evaluate_params alpha_helix ?axis ?nodes) (0, 0),
       ?m (evaluate_params alpha_helix ?axis ?nodes) (h_gap alpha_helix, 2 * pi)]
      = Some (Inr [(100, 0), (100, 0), (100, 0)])"
    by (rule sort_by_key_three_equal)
  have d: "set_nodes alpha_helix ?axis (fst (hd [(100, 0), (100, 0), (100 :: real, 0 :: real)]))
      (snd (hd [(100, 0), (100, 0), (100 :: real, 0 :: real)])) = Some (Inr [])"
    using g by simp
  show ?thesis
    using get_avg_offset_without_generated_nodes
      [of "[]" ?nodes alpha_helix ?nodes ?axis ?m "[(100, 0), (100, 0), (100, 0)]"] a b c d g
    by simp
qed

subsection \<open>The accepted nodes\<close>

lemma sort_keys_Inr:
  "sort_keys f xs = Some (Inr kxs) \<Longrightarrow>
     map snd kxs = xs \<and> (\<forall>p \<in> set kxs. f (snd p) = Some (Inr (fst p)))"
  by (induction xs arbitrary: kxs) (auto split: option.splits sum.splits)

lemma hd_sort_key_least:
  assumes "kxs \<noteq> []"
  shows "hd (sort_key fst kxs) \<in> set kxs \<and>
         (\<forall>p \<in> set kxs. fst (hd (sort_key fst kxs)) \<le> (fst p :: real))"
proof -
  obtain y ys where ys: "sort_key fst kxs = y # ys"
    using assms by (cases "sort_key fst kxs") (auto dest: arg_cong [where f = length])
  have "set (y # ys) = set kxs"
    using ys set_sort [of fst kxs] by simp
  moreover have "sorted (map fst (y # ys))"
    using ys sorted_sort_key [of fst kxs] by simp
  ultimately show ?thesis
    using ys by auto
qed

lemma sort_by_key_best:
  assumes "sort_by_key f xs = Some (Inr sorted_res)" and "xs \<noteq> []"
  shows "hd sorted_res \<in> set xs \<and>
         (\<exists>kb. f (hd sorted_res) = Some (Inr kb) \<and>
            (\<forall>x \<in> set xs. \<exists>k. f x = Some (Inr k) \<and> kb \<le> k))"
proof -
  obtain kxs where k: "sort_keys f xs = Some (Inr kxs)"
    and s: "sorted_res = map snd (sort_key fst kxs)"
    using assms(1) by (auto simp: sort_by_key_def split: option.splits sum.splits)
  have m: "map snd kxs = xs" and e: "\<forall>p \<in> set kxs. f (snd p) = Some (Inr (fst p))"
    using sort_keys_Inr [OF k] by simp_all
  have ne: "kxs \<noteq> []"
    using m assms(2) by auto
  then have sne: "sort_key fst kxs \<noteq> []"
    by (auto dest: arg_cong [where f = length])
  let ?b = "hd (sort_key fst kxs)"
  have b: "?b \<in> set kxs" and l: "\<forall>p \<in> set kxs. fst ?b \<le> fst p"
    using hd_sort_key_least [OF ne] by simp_all
  have h: "hd sorted_res = snd ?b"
    using s sne by (simp add: hd_map)
  have "snd ?b \<in> set xs"
    using b m by force
  moreover have "f (snd ?b) = Some (Inr (fst ?b))"
    using e b by simp
  moreover have "\<forall>x \<in> set xs. \<exists>k. f x = Some (Inr k) \<and> fst ?b \<le> k"
  proof
    fix x assume "x \<in> set xs"
    then obtain p where "p \<in> set kxs" "snd p = x"
      using m by force
    then show "\<exists>k. f x = Some (Inr k) \<and> fst ?b \<le> k"
      using e l by auto
  qed
  ultimately show ?thesis
    using h by auto
qed

lemma set_edges_take_drop:
  assumes "3 \<le> h_min_interval_size h"
  shows "set_edges h original_nodes nodes =
           take (nat \<lfloor>real_of_int (h_min_interval_size h) / 2 - 0.1\<rfloor>) original_nodes
             @ nodes
             @ drop (length original_nodes - nat \<lfloor>real_of_int (h_min_interval_size h) / 2 - 0.1\<rfloor>)
                 original_nodes"
proof -
  let ?x = "real_of_int (h_min_interval_size h) / 2 - 0.1"
  have "1 \<le> ?x"
    using assms by simp
  then have e: "edge_length h = \<lfloor>?x\<rfloor>" and p: "1 \<le> \<lfloor>?x\<rfloor>"
    by (simp_all add: edge_length_def trunc_int_def le_floor_iff)
  have "py_slice_to original_nodes \<lfloor>?x\<rfloor> = take (nat \<lfloor>?x\<rfloor>) original_nodes"
    using p by (auto simp: py_slice_to_def slice_bound_def Let_def min_def)
  moreover have "py_slice_from original_nodes (- \<lfloor>?x\<rfloor>)
      = drop (length original_nodes - nat \<lfloor>?x\<rfloor>) original_nodes"
  proof -
    have "nat (max (- \<lfloor>?x\<rfloor> + int (length original_nodes)) 0) = length original_nodes - nat \<lfloor>?x\<rfloor>"
      using p by (simp add: max_def nat_diff_distrib')
    then show ?thesis
      using p by (simp add: py_slice_from_def slice_bound_def Let_def)
  qed
  ultimately show ?thesis
    by (simp add: set_edges_def e)
qed


text \<open>
  Claim C1. When \<^verbatim>\<open>fit\<close> returns nodes, the screw axis passed the curvature screen, the
  parameters \<open>best\<close> are those of the three results of the optimizer with the least
  objective, \<open>generated\<close> are the nodes drawn with them and \<open>d\<close> is their average offset
  from the original nodes. With \<open>e = \<lfloor>min_interval_size / 2 - 0.1\<rfloor>\<close> (at least \<open>1\<close>
  for a minimum interval size of three or more, as \<^verbatim>\<open>fit_helices\<close> uses it), the result is
  the first \<open>e\<close> original nodes, the generated nodes and the last \<open>e\<close> original nodes when
  \<open>0.8 < d \<le> 1.7\<close>, and the original nodes otherwise.
\<close>

theorem fit_accepts_or_keeps:
  assumes "fit h minimize nodes = Some (Inr result)"
    and "3 \<le> h_min_interval_size h"
  shows "\<exists>screw_axis best generated d.
           set_screw_axis h nodes = Inr screw_axis \<and>
           best \<in> set [minimize (evaluate_params h screw_axis nodes) (- h_gap h, - 2 * pi),
                        minimize (evaluate_params h screw_axis nodes) (0, 0),
                        minimize (evaluate_params h screw_axis nodes) (h_gap h, 2 * pi)] \<and>
           (\<forall>x \<in> set [minimize (evaluate_params h screw_axis nodes) (- h_gap h, - 2 * pi),
                        minimize (evaluate_params h screw_axis nodes) (0, 0),
                        minimize (evaluate_params h screw_axis nodes) (h_gap h, 2 * pi)].
              \<exists>k. evaluate_params h screw_axis nodes x = Some (Inr k) \<and> d \<le> k) \<and>
           set_nodes h screw_axis (fst best) (snd best) = Some (Inr generated) \<and>
           get_avg_offset nodes generated = Inr d \<and>
           result =
             (if 0.8 < d \<and> d \<le> 1.7
              then take (nat \<lfloor>real_of_int (h_min_interval_size h) / 2 - 0.1\<rfloor>) nodes
                     @ generated
                     @ drop (length nodes - nat \<lfloor>real_of_int (h_min_interval_size h) / 2 - 0.1\<rfloor>)
                         nodes
              else nodes)"
proof -
  obtain screw_axis where a: "set_screw_axis h nodes = Inr screw_axis"
    using assms(1) by (cases "set_screw_axis h nodes") (simp_all add: fit_def)
  let ?f = "evaluate_params h screw_axis nodes"
  let ?res = "[minimize ?f (- h_gap h, - 2 * pi), minimize ?f (0, 0), minimize ?f (h_gap h, 2 * pi)]"
  have b: "get_node_max_angle screw_axis 80 3 = Inr None"
    using assms(1) a by (auto simp: fit_def split: sum.splits option.splits)
  obtain sorted_res where c: "sort_by_key ?f ?res = Some (Inr sorted_res)"
    using assms(1) a b by (auto simp: fit_def Let_def split: sum.splits option.splits)
  let ?best = "hd sorted_res"
  obtain generated where g: "set_nodes h screw_axis (fst ?best) (snd ?best) = Some (Inr generated)"
    using assms(1) a b c by (auto simp: fit_def Let_def split: sum.splits option.splits)
  have r: "accept_nodes h nodes generated = Inr result"
    using assms(1) fit_after_screen [where minimize = minimize, OF a b c g] by simp
  then obtain d where d: "get_avg_offset nodes generated = Inr d"
    and res: "result = (if 0.8 < d \<and> d \<le> 1.7 then set_edges h nodes generated else nodes)"
    by (auto simp: accept_nodes_def split: sum.splits)
  obtain kb where m: "?best \<in> set ?res" and kb: "?f ?best = Some (Inr kb)"
    and least: "\<forall>x \<in> set ?res. \<exists>k. ?f x = Some (Inr k) \<and> kb \<le> k"
    using sort_by_key_best [OF c] by blast
  have "kb = d"
    using kb g d by (simp add: evaluate_params_def)
  then have "\<forall>x \<in> set ?res. \<exists>k. ?f x = Some (Inr k) \<and> d \<le> k"
    using least by simp
  moreover note a m g d
  moreover have "result =
             (if 0.8 < d \<and> d \<le> 1.7
              then take (nat \<lfloor>real_of_int (h_min_interval_size h) / 2 - 0.1\<rfloor>) nodes
                     @ generated
                     @ drop (length nodes - nat \<lfloor>real_of_int (h_min_interval_size h) / 2 - 0.1\<rfloor>)
                         nodes
              else nodes)"
    using res set_edges_take_drop [OF assms(2), of nodes generated] by simp
  ultimately show ?thesis
    by blast
qed


lemma smul_zero_left: "smul 0 p = (0, 0, 0)"
  by (cases p) (simp add: smul_def)

lemma vadd_zero_right: "vadd p (0, 0, 0) = p"
  by (cases p) (simp add: vadd_def)

lemma helix_node_radius_zero:
  "h_r h = 0 \<Longrightarrow> helix_node h shift rotation t position direction = position"
  by (simp add: helix_node_def Let_def vecmat_def smul_zero_left vadd_zero_right)

lemma small_axis_nodes:
  assumes "h_r h = 0" and "3 / 5 \<le> h_gap h"
  shows "set_nodes h [(0, 0, 0), (0, 0, 3 / 5)] 0 rotation = Some (Inr [(0, 0, 0)])"
proof -
  have p: "Curve_call [(0, 0, 0), (0, 0, 3 / 5)] 0 = Some (0, 0, 0)"
    by (simp add: get_vector_def norm3_z_axis vadd_def smul_def)
  have d: "Curve_get_vector [(0, 0, 0), (0, 0, 3 / 5)] 0 = Some (0, 0, 3 / 5)"
    by (simp add: get_vector_def norm3_z_axis)
  have n: "Curve_call [(0, 0, 0), (0, 0, 3 / 5)] (0 + h_gap h) = None"
    using assms(2) by (intro small_axis_beyond) simp
  have "set_nodes_loop h [(0, 0, 0), (0, 0, 3 / 5)] 0 rotation (0 + h_gap h) [(0, 0, 0)]
          = Some (Inr [(0, 0, 0)])"
    using n by (subst set_nodes_loop.simps) simp
  then show ?thesis
    unfolding set_nodes_def using p d assms(1)
    by (subst set_nodes_loop.simps) (simp add: helix_node_radius_zero)
qed

lemma small_helix_offset:
  "get_avg_offset [(0, 0, - 6 / 5), (4 / 5, 0, 3 / 5), (- 4 / 5, 0, 3 / 5)] [(0, 0, 0)]
     = Inr (16 / 15)"
proof -
  have "get_distance (0, 0, - 6 / 5) (0, 0, 0) = 6 / 5"
    by (simp add: get_distance_def vsub_def norm3_z_axis)
  moreover have "get_distance (4 / 5, 0, 3 / 5) (0, 0, 0) = 1"
    by (simp add: get_distance_def vsub_def norm3_def)
  moreover have "get_distance (- 4 / 5, 0, 3 / 5) (0, 0, 0) = 1"
    by (simp add: get_distance_def vsub_def norm3_def)
  ultimately show ?thesis
    by (simp add: get_avg_offset_def)
qed

theorem fit_accepts_or_keeps_witness:
  "fit (alpha_helix\<lparr>h_r := 0\<rparr>) (\<lambda>objective start. (0, 0))
       [(0, 0, - 6 / 5), (4 / 5, 0, 3 / 5), (- 4 / 5, 0, 3 / 5)]
     = Some (Inr [(0, 0, - 6 / 5), (0, 0, 0), (- 4 / 5, 0, 3 / 5)]) \<and>
   3 \<le> h_min_interval_size (alpha_helix\<lparr>h_r := 0\<rparr>) \<and>
   (\<exists>generated d.
      get_avg_offset [(0, 0, - 6 / 5), (4 / 5, 0, 3 / 5), (- 4 / 5, 0, 3 / 5)] generated = Inr d \<and>
      [(0, 0, - 6 / 5), (0, 0, 0), (- 4 / 5, 0, 3 / 5)] =
        (if 0.8 < d \<and> d \<le> 1.7
         then take 1 [(0, 0, - 6 / 5), (4 / 5, 0, 3 / 5), (- 4 / 5, 0, 3 / 5)] @ generated
                @ drop 2 [(0, 0, - 6 / 5), (4 / 5, 0, 3 / 5), (- 4 / 5, 0, 3 / 5)]
         else [(0, 0, - 6 / 5), (4 / 5, 0, 3 / 5), (- 4 / 5, 0, 3 / 5)]))"
proof -
  let ?h = "alpha_helix\<lparr>h_r := 0\<rparr>"
  let ?nodes = "[(0, 0, - 6 / 5), (4 / 5, 0, 3 / 5), (- 4 / 5, 0, 3 / 5)] :: point list"
  let ?axis = "[(0, 0, 0), (0, 0, 3 / 5)] :: point list"
  let ?m = "(\<lambda>objective start. (0, 0)) :: minimizer"
  have a: "set_screw_axis ?h ?nodes = Inr ?axis"
    by (rule small_screw_axis) (simp_all add: alpha_helix_def)
  have b: "get_node_max_angle ?axis 80 3 = Inr None"
    by (rule two_point_curve_screen)
  have g: "set_nodes ?h ?axis 0 0 = Some (Inr [(0, 0, 0)])"
    by (rule small_axis_nodes) (simp_all add: alpha_helix_def)
  have "evaluate_params ?h ?axis ?nodes (0, 0) = Some (Inr (16 / 15))"
    by (simp only: evaluate_params_def fst_conv snd_conv g option.case sum.case
        small_helix_offset)
  then have c: "sort_by_key (evaluate_params ?h ?axis ?nodes)
      [?m (evaluate_params ?h ?axis ?nodes) (- h_gap ?h, - 2 * pi),
       ?m (evaluate_params ?h ?axis ?nodes) (0, 0),
       ?m (evaluate_params ?h ?axis ?nodes) (h_gap ?h, 2 * pi)]
      = Some (Inr [(0, 0), (0, 0), (0, 0)])"
    by (rule sort_by_key_three_equal)
  have d: "set_nodes ?h ?axis (fst (hd [(0, 0), (0, 0), (0 :: real, 0 :: real)]))
      (snd (hd [(0, 0), (0, 0), (0 :: real, 0 :: real)])) = Some (Inr [(0, 0, 0)])"
    using g by simp
  have e: "edge_length ?h = 1"
    by (simp add: edge_length_def alpha_helix_def trunc_int_def)
  have "set_edges ?h ?nodes [(0, 0, 0)] = [(0, 0, - 6 / 5), (0, 0, 0), (- 4 / 5, 0, 3 / 5)]"
    by (simp add: set_edges_def e py_slice_to_def py_slice_from_def slice_bound_def)
  moreover have "accept_nodes ?h ?nodes [(0, 0, 0)] = Inr (set_edges ?h ?nodes [(0, 0, 0)])"
    by (simp only: accept_nodes_def small_helix_offset sum.case) simp
  ultimately have "accept_nodes ?h ?nodes [(0, 0, 0)]
      = Inr [(0, 0, - 6 / 5), (0, 0, 0), (- 4 / 5, 0, 3 / 5)]"
    by simp
  then have f: "fit ?h ?m ?nodes = Some (Inr [(0, 0, - 6 / 5), (0, 0, 0), (- 4 / 5, 0, 3 / 5)])"
    using fit_after_screen [where minimize = ?m, OF a b c d] by simp
  have k: "3 \<le> h_min_interval_size ?h"
    by (simp add: alpha_helix_def)
  have fl: "nat \<lfloor>real_of_int (h_min_interval_size ?h) / 2 - 0.1\<rfloor> = 1"
    by (simp add: alpha_helix_def)
  from fit_accepts_or_keeps [OF f k] obtain generated d where
    "get_avg_offset ?nodes generated = Inr d"
    "[(0, 0, - 6 / 5), (0, 0, 0), (- 4 / 5, 0, 3 / 5)] =
        (if 0.8 < d \<and> d \<le> 1.7
         then take (nat \<lfloor>real_of_int (h_min_interval_size ?h) / 2 - 0.1\<rfloor>) ?nodes @ generated
                @ drop (length ?nodes - nat \<lfloor>real_of_int (h_min_interval_size ?h) / 2 - 0.1\<rfloor>) ?nodes
         else ?nodes)"
    by blast
  then have "\<exists>generated d.
      get_avg_offset ?nodes generated = Inr d \<and>
      [(0, 0, - 6 / 5), (0, 0, 0), (- 4 / 5, 0, 3 / 5)] =
        (if 0.8 < d \<and> d \<le> 1.7
         then take 1 ?nodes @ generated @ drop 2 ?nodes
         else ?nodes)"
    unfolding fl by (intro exI [of _ generated] exI [of _ d]) simp
  then show ?thesis
    using f k by blast
qed


text \<open>
  The hypothesis on the minimum interval size is needed: for a size of two the edge length
  is \<open>\<lfloor>0.9\<rfloor> = 0\<close>, and the slice \<^verbatim>\<open>original_nodes[-0:]\<close> is the whole list.
\<close>

lemma set_edges_size_two:
  assumes "h_min_interval_size h = 2"
  shows "set_edges h original_nodes nodes = nodes @ original_nodes"
proof -
  have "edge_length h = 0"
    using assms by (simp add: edge_length_def trunc_int_def)
  then show ?thesis
    by (simp add: set_edges_def py_slice_to_def py_slice_from_def slice_bound_def)
qed

subsection \<open>The centroids of the screw axis\<close>

lemma get_centroid_nonempty:
  "nodes \<noteq> [] \<Longrightarrow> get_centroid nodes = Inr (smul (1 / real (length nodes)) (foldl vadd (0, 0, 0) nodes))"
  by (simp add: get_centroid_def)

lemma screw_axis_scan_interval:
  assumes "1 \<le> h_min_interval_size h" and "int (length interval) \<le> h_interval_size h"
  shows "\<exists>centroids'. screw_axis_scan h centroids interval nodes =
           Inr (centroids',
                drop (length (interval @ nodes) - nat (h_interval_size h)) (interval @ nodes))"
  using assms(2)
proof (induction nodes arbitrary: centroids interval)
  case Nil
  then show ?case by simp
next
  case (Cons node nodes)
  let ?i1 = "interval @ [node]"
  let ?i2 = "if int (length ?i1) > h_interval_size h then tl ?i1 else ?i1"
  have len: "int (length ?i2) \<le> h_interval_size h"
    using Cons.prems by auto
  have eq: "drop (length (?i2 @ nodes) - nat (h_interval_size h)) (?i2 @ nodes)
      = drop (length (interval @ node # nodes) - nat (h_interval_size h)) (interval @ node # nodes)"
  proof (cases "int (length ?i1) > h_interval_size h")
    case True
    then have l: "length ?i1 = Suc (nat (h_interval_size h))"
      using Cons.prems by auto
    have "drop (length (tl ?i1 @ nodes) - nat (h_interval_size h)) (tl ?i1 @ nodes)
        = drop (length nodes) (tl ?i1 @ nodes)"
      using l by simp
    also have "\<dots> = drop (Suc (length nodes)) (?i1 @ nodes)"
      by (cases ?i1) simp_all
    also have "\<dots> = drop (length (interval @ node # nodes) - nat (h_interval_size h))
        (interval @ node # nodes)"
      using l by simp
    finally show ?thesis
      using True by simp
  next
    case False
    then show ?thesis by simp
  qed
  show ?case
  proof (cases "int (length ?i2) \<ge> h_min_interval_size h")
    case True
    then have "?i2 \<noteq> []"
      using assms(1) by auto
    then obtain centroid where c: "get_centroid ?i2 = Inr centroid"
      using get_centroid_nonempty by blast
    obtain centroids' where
      "screw_axis_scan h (centroids @ [centroid]) ?i2 nodes =
         Inr (centroids', drop (length (?i2 @ nodes) - nat (h_interval_size h)) (?i2 @ nodes))"
      using Cons.IH [OF len] by blast
    then have "screw_axis_scan h centroids interval (node # nodes) =
         Inr (centroids', drop (length (?i2 @ nodes) - nat (h_interval_size h)) (?i2 @ nodes))"
      using True c by (simp add: Let_def)
    then show ?thesis
      unfolding eq by blast
  next
    case False
    obtain centroids' where
      "screw_axis_scan h centroids ?i2 nodes =
         Inr (centroids', drop (length (?i2 @ nodes) - nat (h_interval_size h)) (?i2 @ nodes))"
      using Cons.IH [OF len] by blast
    then have "screw_axis_scan h centroids interval (node # nodes) =
         Inr (centroids', drop (length (?i2 @ nodes) - nat (h_interval_size h)) (?i2 @ nodes))"
      using False by (simp add: Let_def)
    then show ?thesis
      unfolding eq by blast
  qed
qed

lemma screw_axis_shrink_last:
  assumes "2 \<le> h_min_interval_size h"
  shows "h_min_interval_size h \<le> int (length interval) \<Longrightarrow>
         \<exists>centroids' centroid.
           screw_axis_shrink h centroids interval = Inr centroids' \<and> centroids' \<noteq> [] \<and>
           get_centroid (drop (length interval - (nat (h_min_interval_size h) - 1)) interval)
             = Inr centroid \<and>
           last centroids' = centroid"
proof (induction "length interval" arbitrary: centroids interval)
  case 0
  then show ?case using assms by simp
next
  case (Suc n)
  then obtain x interval' where iv: "interval = x # interval'" and n: "n = length interval'"
    by (cases interval) auto
  have ne: "interval' \<noteq> []"
    using Suc.prems assms iv by auto
  then obtain centroid where c: "get_centroid interval' = Inr centroid"
    using get_centroid_nonempty by blast
  have step: "screw_axis_shrink h centroids interval
      = screw_axis_shrink h (centroids @ [centroid]) interval'"
    using Suc.prems iv c by simp
  show ?case
  proof (cases "h_min_interval_size h \<le> int (length interval')")
    case True
    have "length interval - (nat (h_min_interval_size h) - 1)
        = Suc (length interval' - (nat (h_min_interval_size h) - 1))"
      using True iv assms by auto
    then have "drop (length interval - (nat (h_min_interval_size h) - 1)) interval
        = drop (length interval' - (nat (h_min_interval_size h) - 1)) interval'"
      using iv by simp
    then show ?thesis
      using Suc.hyps(1) [OF n True, of "centroids @ [centroid]"] step by simp
  next
    case False
    then have l: "length interval' = nat (h_min_interval_size h) - 1"
      using Suc.prems iv by auto
    have "screw_axis_shrink h (centroids @ [centroid]) interval' = Inr (centroids @ [centroid])"
      using False by simp
    moreover have "drop (length interval - (nat (h_min_interval_size h) - 1)) interval = interval'"
      using iv l by simp
    ultimately show ?thesis
      using step c by simp
  qed
qed


text \<open>
  Claim C7. The two loops are as the claim describes them, but the second one tests the
  size of the window before it drops the oldest node: for a minimum interval size \<open>m\<close>
  of at least two, at most the interval size, and at least \<open>m\<close> nodes, the centroids
  end with the centroid of the last \<open>m - 1\<close> nodes only.
\<close>

theorem screw_axis_last_centroid:
  assumes "2 \<le> h_min_interval_size h"
    and "h_min_interval_size h \<le> h_interval_size h"
    and "h_min_interval_size h \<le> int (length nodes)"
  shows "\<exists>centroids centroid.
           screw_axis_centroids h nodes = Inr centroids \<and> centroids \<noteq> [] \<and>
           get_centroid (drop (length nodes - (nat (h_min_interval_size h) - 1)) nodes)
             = Inr centroid \<and>
           last centroids = centroid \<and>
           int (length (drop (length nodes - (nat (h_min_interval_size h) - 1)) nodes))
             = h_min_interval_size h - 1"
proof -
  let ?m = "nat (h_min_interval_size h)"
  let ?a = "length nodes - nat (h_interval_size h)"
  obtain centroids0 where scan: "screw_axis_scan h [] [] nodes = Inr (centroids0, drop ?a nodes)"
    using screw_axis_scan_interval [of h "[]" "[]" nodes] assms(1,2) by auto
  have len: "h_min_interval_size h \<le> int (length (drop ?a nodes))"
    using assms by auto
  obtain centroids centroid where
    shrink: "screw_axis_shrink h centroids0 (drop ?a nodes) = Inr centroids"
    and ne: "centroids \<noteq> []"
    and c: "get_centroid (drop (length (drop ?a nodes) - (?m - 1)) (drop ?a nodes)) = Inr centroid"
    and l: "last centroids = centroid"
    using screw_axis_shrink_last [OF assms(1) len, of centroids0] by blast
  have "length (drop ?a nodes) - (?m - 1) + ?a = length nodes - (?m - 1)"
    using assms by auto
  then have "drop (length (drop ?a nodes) - (?m - 1)) (drop ?a nodes)
      = drop (length nodes - (?m - 1)) nodes"
    by (simp only: drop_drop)
  then have "get_centroid (drop (length nodes - (?m - 1)) nodes) = Inr centroid"
    using c by simp
  moreover have "screw_axis_centroids h nodes = Inr centroids"
    using scan shrink by (simp add: screw_axis_centroids_def)
  moreover have "int (length (drop (length nodes - (?m - 1)) nodes)) = h_min_interval_size h - 1"
    using assms by auto
  ultimately show ?thesis
    using ne l by blast
qed

theorem screw_axis_last_centroid_witness:
  "screw_axis_centroids alpha_helix [(0, 0, 0), (3, 0, 0), (6, 0, 0)]
     = Inr [(3, 0, 0), (9 / 2, 0, 0)] \<and>
   get_centroid [(3, 0, 0), (6, 0, 0)] = Inr (9 / 2, 0, 0) \<and>
   (\<exists>centroids.
      screw_axis_centroids alpha_helix [(0, 0, 0), (3, 0, 0), (6, 0, 0)] = Inr centroids \<and>
      get_centroid (drop 1 [(0, 0, 0), (3, 0, 0), (6, 0, 0)]) = Inr (last centroids))"
proof -
  let ?nodes = "[(0, 0, 0), (3, 0, 0), (6, 0, 0)] :: point list"
  have e: "screw_axis_centroids alpha_helix ?nodes = Inr [(3, 0, 0), (9 / 2, 0, 0)]"
    by (simp add: screw_axis_centroids_def alpha_helix_def get_centroid_def vadd_def smul_def)
  have g: "get_centroid [(3, 0, 0), (6, 0, 0)] = Inr (9 / 2, 0, 0)"
    by (simp add: get_centroid_def vadd_def smul_def)
  have "2 \<le> h_min_interval_size alpha_helix"
    "h_min_interval_size alpha_helix \<le> h_interval_size alpha_helix"
    "h_min_interval_size alpha_helix \<le> int (length ?nodes)"
    by (simp_all add: alpha_helix_def)
  from screw_axis_last_centroid [OF this] obtain centroids where
    "screw_axis_centroids alpha_helix ?nodes = Inr centroids"
    "get_centroid (drop (length ?nodes - (nat (h_min_interval_size alpha_helix) - 1)) ?nodes)
       = Inr (last centroids)"
    by blast
  moreover have "length ?nodes - (nat (h_min_interval_size alpha_helix) - 1) = 1"
    by (simp add: alpha_helix_def)
  ultimately have "\<exists>centroids.
      screw_axis_centroids alpha_helix ?nodes = Inr centroids \<and>
      get_centroid (drop 1 ?nodes) = Inr (last centroids)"
    by (simp del: drop_Suc_Cons One_nat_def) 
  then show ?thesis
    using e g by blast
qed

subsection \<open>Bounds for one turning angle\<close>

lemma pi_ge_three: "3 \<le> pi"
proof -
  have "sin (pi / 6) \<le> pi / 6"
    by (rule sin_x_le_x) simp
  then show ?thesis
    by (simp add: sin_30)
qed

lemma sin_lower_bound:
  fixes x :: real
  assumes "0 \<le> x"
  shows "x - x ^ 3 / 6 - x ^ 5 / 120 \<le> sin x"
proof -
  have "\<bar>sin x - (\<Sum>m<5. sin_coeff m * x ^ m)\<bar> \<le> inverse (fact 5) * \<bar>x\<bar> ^ 5"
    by (rule Maclaurin_sin_bound)
  moreover have "(\<Sum>m<5. sin_coeff m * x ^ m) = x - x ^ 3 / 6"
    by (simp add: eval_nat_numeral sin_coeff_Suc cos_coeff_Suc)
  moreover have "inverse (fact 5) * \<bar>x\<bar> ^ 5 = x ^ 5 / 120"
    using assms by (simp add: fact_numeral)
  ultimately show ?thesis
    by linarith
qed

lemma pi_less_33: "pi < 33 / 10"
proof (rule ccontr)
  assume "\<not> pi < 33 / 10"
  then have lo: "11 / 20 \<le> pi / 6"
    by simp
  have hi: "pi / 6 \<le> 2 / 3"
    using pi_less_4 by simp
  define x where "x = pi / 6"
  have x: "11 / 20 \<le> x" "x \<le> 2 / 3" "0 \<le> x"
    using lo hi by (simp_all add: x_def)
  have x2: "x ^ 2 \<le> (2 / 3) ^ 2"
    using x by (intro power_mono) simp_all
  have x4: "x ^ 4 \<le> (2 / 3) ^ 4"
    using x by (intro power_mono) simp_all
  have f: "23 / 25 \<le> 1 - x ^ 2 / 6 - x ^ 4 / 120"
    using x2 x4 by (simp add: power2_eq_square power4_eq_xxxx)
  have "11 / 20 * (23 / 25) \<le> x * (1 - x ^ 2 / 6 - x ^ 4 / 120)"
    using x f by (intro mult_mono) simp_all
  also have "\<dots> = x - x ^ 3 / 6 - x ^ 5 / 120"
    by (simp add: algebra_simps eval_nat_numeral)
  also have "\<dots> \<le> sin x"
    using x by (intro sin_lower_bound)
  also have "\<dots> = 1 / 2"
    by (simp add: x_def sin_30)
  finally show False
    by simp
qed


lemma cos_80_degrees_lower: "24 / 145 < cos (4 * pi / 9)"
proof -
  have "(24 / 145 :: real) < 1 / 6 - (1 / 6) ^ 3 / 6 - (1 / 6) ^ 5 / 120"
    by (simp add: eval_nat_numeral)
  also have "\<dots> \<le> sin (1 / 6)"
    by (rule sin_lower_bound) simp
  also have "\<dots> \<le> sin (pi / 18)"
    using pi_ge_three pi_less_4 by (intro sin_monotone_2pi_le) simp_all
  also have "\<dots> = cos (pi / 2 - pi / 18)"
    by (simp add: cos_sin_eq [symmetric] sin_cos_eq)
  also have "pi / 2 - pi / 18 = 4 * pi / 9"
    by simp
  finally show ?thesis .
qed

lemma cos_81_degrees_upper: "cos (9 * pi / 20) < 24 / 145"
proof -
  have "cos (9 * pi / 20) = cos (pi / 2 - pi / 20)"
    by (rule arg_cong [where f = cos]) simp
  also have "\<dots> = sin (pi / 20)"
    by (simp add: sin_cos_eq)
  also have "\<dots> \<le> pi / 20"
    by (rule sin_x_le_x) simp
  also have "\<dots> < 24 / 145"
    using pi_less_33 by simp
  finally show ?thesis .
qed

lemma turning_angle_bounds:
  "80 < arccos (24 / 145) * (180 / pi) \<and> arccos (24 / 145) * (180 / pi) < 81"
proof -
  have "arccos (cos (4 * pi / 9)) < arccos (24 / 145)"
    using cos_80_degrees_lower by (intro arccos_less_arccos) simp_all
  then have lo: "4 * pi / 9 < arccos (24 / 145)"
    by (simp add: arccos_cos)
  have "arccos (24 / 145) < arccos (cos (9 * pi / 20))"
    using cos_81_degrees_upper by (intro arccos_less_arccos) simp_all
  then have hi: "arccos (24 / 145) < 9 * pi / 20"
    by (simp add: arccos_cos)
  have "80 < arccos (24 / 145) * (180 / pi)"
    using lo by (simp add: field_simps)
  moreover have "arccos (24 / 145) * (180 / pi) < 81"
    using hi by (simp add: field_simps)
  ultimately show ?thesis ..
qed


subsection \<open>The curvature screen\<close>

lemma evaluate_params_returns:
  assumes "0 < h_gap h" and "nodes \<noteq> []"
  shows "\<exists>k. evaluate_params h screw_axis nodes x = Some (Inr k)"
proof -
  obtain generated where "set_nodes h screw_axis (fst x) (snd x) = Some (Inr generated)"
    using set_nodes_returns [OF assms(1)] by blast
  then show ?thesis
    using get_avg_offset_defined [OF assms(2), of generated]
    by (auto simp: evaluate_params_def)
qed

lemma sort_keys_returns:
  "\<forall>x. \<exists>k. f x = Some (Inr k) \<Longrightarrow> \<exists>kxs. sort_keys f xs = Some (Inr kxs)"
proof (induction xs)
  case Nil
  then show ?case by simp
next
  case (Cons x xs)
  then obtain k kxs where "f x = Some (Inr k)" "sort_keys f xs = Some (Inr kxs)"
    by blast
  then show ?case by simp
qed

lemma fit_returns_after_screen:
  assumes "0 < h_gap h" and "set_screw_axis h nodes = Inr screw_axis"
    and "get_node_max_angle screw_axis 80 3 = Inr None"
  shows "\<exists>result. fit h minimize nodes = Some (Inr result)"
proof -
  have ne: "nodes \<noteq> []"
    using assms(2) by (rule set_screw_axis_nonempty)
  let ?f = "evaluate_params h screw_axis nodes"
  let ?res = "[minimize ?f (- h_gap h, - 2 * pi), minimize ?f (0, 0), minimize ?f (h_gap h, 2 * pi)]"
  have "\<forall>x. \<exists>k. ?f x = Some (Inr k)"
    using evaluate_params_returns [OF assms(1) ne] by blast
  then obtain kxs where "sort_keys ?f ?res = Some (Inr kxs)"
    using sort_keys_returns by blast
  then have c: "sort_by_key ?f ?res = Some (Inr (map snd (sort_key fst kxs)))"
    by (simp add: sort_by_key_def)
  obtain generated where g: "set_nodes h screw_axis (fst (hd (map snd (sort_key fst kxs))))
      (snd (hd (map snd (sort_key fst kxs)))) = Some (Inr generated)"
    using set_nodes_returns [OF assms(1)] by blast
  obtain d where "get_avg_offset nodes generated = Inr d"
    using get_avg_offset_defined [OF ne] by blast
  then have "\<exists>result. accept_nodes h nodes generated = Inr result"
    by (simp add: accept_nodes_def)
  then show ?thesis
    using fit_after_screen [where minimize = minimize, OF assms(2,3) c g] by auto
qed

lemma bent_screw_axis:
  "set_screw_axis alpha_helix
     [(0, 429 / 2, 0), (0, 429 / 2, 0), (0, 0, 0), (36, 429 / 2, 0), (36, 429 / 2, 0)]
   = Inr [(0, 143, 0), (24, 143, 0), (36, 429 / 2, 0)]"
  by (simp add: set_screw_axis_def screw_axis_centroids_def alpha_helix_def get_centroid_def
      vadd_def smul_def Curve_init_def)

lemma norm3_x_axis: "norm3 (x, 0, 0) = \<bar>x\<bar>"
  by (simp add: norm3_def)

lemma bent_segment_norm: "norm3 (12, 143 / 2, 0) = 145 / 2"
proof -
  have "sqrt ((145 / 2) * (145 / 2)) = \<bar>145 / 2\<bar>"
    by (rule real_sqrt_abs2)
  then have "sqrt ((145 / 2) * (145 / 2)) = 145 / 2"
    by simp
  moreover have "(12 :: real) * 12 + 143 / 2 * (143 / 2) + 0 * 0 = (145 / 2) * (145 / 2)"
    by simp
  ultimately show ?thesis
    by (simp only: norm3_def prod.case)
qed

lemma bent_turning_angle:
  "angle_between (get_vector (0, 143, 0) (24, 143, 0)) (get_vector (24, 143, 0) (36, 429 / 2, 0))
     = arccos (24 / 145) * (180 / pi)"
proof -
  have v1: "get_vector (0, 143, 0) (24, 143, 0) = (24, 0, 0)"
    by (simp add: get_vector_def)
  have v2: "get_vector (24, 143, 0) (36, 429 / 2, 0) = (12, 143 / 2, 0)"
    by (simp add: get_vector_def)
  have n1: "normalize (24, 0, 0) = (1, 0, 0)"
    by (simp add: normalize_def norm3_x_axis smul_def)
  have n2: "normalize (12, 143 / 2, 0) = (24 / 145, 143 / 145, 0)"
    by (simp add: normalize_def bent_segment_norm smul_def)
  show ?thesis
    by (simp add: angle_between_def v1 v2 n1 n2 clip_def dot_def)
qed


lemma bent_turning_angle_truncated: "trunc_int (arccos (24 / 145) * (180 / pi)) = 80"
proof -
  have "\<lfloor>arccos (24 / 145) * (180 / pi)\<rfloor> = 80"
    using turning_angle_bounds by (intro floor_unique) simp_all
  then show ?thesis
    using turning_angle_bounds by (simp add: trunc_int_def)
qed

lemma max_angle_loop_single:
  assumes "0 < interval_size"
    and "real_of_int (sum_list (current_interval
           [i mod interval_size := trunc_int (angle_between
              (get_vector (nodes ! (i - 1)) (nodes ! i))
              (get_vector (nodes ! i) (nodes ! (i + 1))))])) \<le> max_angle"
  shows "max_angle_loop nodes max_angle interval_size current_interval [i] = Inr None"
  using assms by (simp add: Let_def)

lemma bent_axis_screen:
  "get_node_max_angle [(0, 143, 0), (24, 143, 0), (36, 429 / 2, 0)] 80 3 = Inr None"
proof -
  let ?nodes = "[(0, 143, 0), (24, 143, 0), (36, 429 / 2, 0)] :: point list"
  have i: "[1 ..< length ?nodes - 1] = [1]"
    by (simp add: upt_rec)
  have r: "replicate 3 (0 :: int) = [0, 0, 0]"
    by (simp add: numeral_3_eq_3)
  have n: "?nodes ! (1 - 1) = (0, 143, 0)" "?nodes ! 1 = (24, 143, 0)"
    "?nodes ! (1 + 1) = (36, 429 / 2, 0)"
    by simp_all
  have m: "(1 :: nat) mod 3 = 1"
    by simp
  have u: "[0, 0, 0 :: int][1 := 80] = [0, 80, 0]"
    by simp
  have "max_angle_loop ?nodes 80 3 [0, 0, 0] [1] = Inr None"
    by (rule max_angle_loop_single)
      (simp_all only: n m bent_turning_angle bent_turning_angle_truncated u, simp_all)
  then show ?thesis
    by (simp only: get_node_max_angle_def i r)
qed

text \<open>
  Claim C5 on a screw axis with one bend of about 80.47 degrees. Five nodes give the
  control points \<open>(0, 143, 0)\<close>, \<open>(24, 143, 0)\<close>, \<open>(36, 214.5, 0)\<close>; the turning angle at
  the interior control point exceeds 80 degrees, but the integer array holds 80, the
  screen reports nothing, and \<^verbatim>\<open>fit\<close> goes on to the parameter search and returns nodes.
\<close>

theorem curvature_screen_truncates_angles:
  "set_screw_axis alpha_helix
     [(0, 429 / 2, 0), (0, 429 / 2, 0), (0, 0, 0), (36, 429 / 2, 0), (36, 429 / 2, 0)]
     = Inr [(0, 143, 0), (24, 143, 0), (36, 429 / 2, 0)] \<and>
   80 < angle_between (get_vector (0, 143, 0) (24, 143, 0))
          (get_vector (24, 143, 0) (36, 429 / 2, 0)) \<and>
   trunc_int (angle_between (get_vector (0, 143, 0) (24, 143, 0))
          (get_vector (24, 143, 0) (36, 429 / 2, 0))) = 80 \<and>
   get_node_max_angle [(0, 143, 0), (24, 143, 0), (36, 429 / 2, 0)] 80 3 = Inr None \<and>
   (\<exists>result. fit alpha_helix minimize
      [(0, 429 / 2, 0), (0, 429 / 2, 0), (0, 0, 0), (36, 429 / 2, 0), (36, 429 / 2, 0)]
      = Some (Inr result))"
proof -
  have "0 < h_gap alpha_helix"
    by (simp add: alpha_helix_def)
  then have "\<exists>result. fit alpha_helix minimize
      [(0, 429 / 2, 0), (0, 429 / 2, 0), (0, 0, 0), (36, 429 / 2, 0), (36, 429 / 2, 0)]
      = Some (Inr result)"
    using bent_screw_axis bent_axis_screen by (rule fit_returns_after_screen)
  then show ?thesis
    using bent_screw_axis bent_axis_screen turning_angle_bounds
    by (simp only: bent_turning_angle bent_turning_angle_truncated simp_thms)
qed

subsection \<open>Termination of the refinement\<close>

lemma fit_returns: "\<exists>r. fit alpha_helix minimize nodes = Some r"
proof (cases "set_screw_axis alpha_helix nodes")
  case (Inl e)
  then show ?thesis by (simp add: fit_def)
next
  case (Inr screw_axis)
  show ?thesis
  proof (cases "get_node_max_angle screw_axis 80 3")
    case (Inl e)
    then show ?thesis using Inr by (simp add: fit_def)
  next
    case screen: (Inr found)
    show ?thesis
    proof (cases found)
      case None
      have "0 < h_gap alpha_helix"
        by (simp add: alpha_helix_def)
      then show ?thesis
        using fit_returns_after_screen [of alpha_helix nodes screw_axis minimize] Inr screen None
        by auto
    next
      case (Some node)
      then show ?thesis using Inr screen by (simp add: fit_def)
    qed
  qed
qed

lemma closest_node_loop_result:
  "closest_node_loop nodes node c m js = Inr r \<Longrightarrow> r = c \<or> r \<in> set js"
proof (induction js arbitrary: c m)
  case Nil
  then show ?case by simp
next
  case (Cons j js)
  then show ?case
    by (auto simp: Let_def split: sum.splits if_splits dest: Cons.IH)
qed

lemma closest_node_loop_found:
  assumes "closest_node_loop nodes node c None js = Inr r" and "js \<noteq> []"
  shows "r \<in> set js"
proof -
  obtain j js' where js: "js = j # js'"
    using assms(2) by (cases js) auto
  then obtain node_j where
    "closest_node_loop nodes node j (Some (get_distance node_j node)) js' = Inr r"
    using assms(1) by (auto simp: Let_def split: sum.splits)
  then show ?thesis
    using closest_node_loop_result js by fastforce
qed

lemma split_helix_at_node_shape:
  assumes "split_helix_at_node node ch i = Inr ch'"
    and "chain_helices ch = done @ (s, e) # rest" and "i = length done"
    and "2 \<le> e - s"
  shows "\<exists>c. s < c \<and> c < e \<and>
           ch' = ch\<lparr>chain_helices := done @ (s, c) # (c, e) # rest\<rparr>"
proof -
  have i: "i < length (chain_helices ch)" "chain_helices ch ! i = (s, e)"
    "take i (chain_helices ch) = done" "drop (Suc i) (chain_helices ch) = rest"
    using assms(2,3) by simp_all
  obtain found where f: "closest_node_loop (chain_nodes ch) node (- 1) None [s .. e - 1] = Inr found"
    and ch': "ch' = ch\<lparr>chain_helices :=
        done @ [(s, if s = found then found + 1 else found),
                (if s = found then found + 1 else found, e)] @ rest\<rparr>"
    using assms(1) i by (auto simp: split_helix_at_node_def Let_def split: sum.splits)
  have "[s .. e - 1] \<noteq> []"
    using assms(4) by simp
  then have "found \<in> set [s .. e - 1]"
    using f closest_node_loop_found by blast
  then have "s < (if s = found then found + 1 else found)"
    "(if s = found then found + 1 else found) < e"
    using assms(4) by auto
  then show ?thesis
    using ch' by auto
qed


lemma update_sec_structure_append:
  "update_sec_structure (xs @ ys) node_start diff =
     update_sec_structure xs node_start diff @ update_sec_structure ys node_start diff"
  by (induction xs node_start diff rule: update_sec_structure.induct) simp_all

lemma update_sec_structure_shift:
  "\<forall>q \<in> set rs. node_start < fst q \<and> node_start < snd q \<Longrightarrow>
     update_sec_structure rs node_start diff = map (\<lambda>q. (fst q + diff, snd q + diff)) rs"
  by (induction rs node_start diff rule: update_sec_structure.induct) simp_all

lemma ordered_family_shift:
  "ordered_family rs \<Longrightarrow> ordered_family (map (\<lambda>q. (fst q + diff, snd q + diff)) rs)"
  by (induction rs) auto

lemma range_weight_shift:
  "map range_weight (map (\<lambda>q. (fst q + diff, snd q + diff)) rs) = map range_weight rs"
  by (induction rs) (simp_all add: range_weight_def)

lemma range_weight_positive: "0 < range_weight r"
  by (simp add: range_weight_def)

lemma range_weight_split:
  "s < c \<Longrightarrow> c < e \<Longrightarrow> range_weight (s, c) + range_weight (c, e) < range_weight (s, e)"
  by (simp add: range_weight_def)

lemma fit_helices_loop_end:
  "length (chain_helices ch) \<le> i \<Longrightarrow> fit_helices_loop minimize ch i = Some (Inr ch)"
  by (subst fit_helices_loop.simps) simp

lemma fit_helices_loop_skip:
  "i < length (chain_helices ch) \<Longrightarrow> chain_helices ch ! i = (s, e) \<Longrightarrow> e - s < 10 \<Longrightarrow>
     fit_helices_loop minimize ch i = fit_helices_loop minimize ch (i + 1)"
  by (subst fit_helices_loop.simps) simp

lemma fit_helices_loop_fit:
  "i < length (chain_helices ch) \<Longrightarrow> chain_helices ch ! i = (s, e) \<Longrightarrow> \<not> e - s < 10 \<Longrightarrow>
     fit_helices_loop minimize ch i =
       (case fit alpha_helix minimize (py_slice (chain_nodes ch) s e) of
          None \<Rightarrow> None
        | Some (Inl (CurvedScrewAxisError node)) \<Rightarrow>
            (case split_helix_at_node node ch i of
               Inl err \<Rightarrow> Some (Inl err)
             | Inr ch' \<Rightarrow> fit_helices_loop minimize ch' i)
        | Some (Inl err) \<Rightarrow> Some (Inl err)
        | Some (Inr helix_nodes) \<Rightarrow>
            fit_helices_loop minimize (splice_helix ch s e helix_nodes) (i + 1))"
  by (subst fit_helices_loop.simps) simp

lemma splice_helix_helices:
  "chain_helices (splice_helix ch s e helix_nodes) =
     update_sec_structure (chain_helices ch) s
       (int (length (py_slice_assign (chain_nodes ch) s e helix_nodes))
          - int (length (chain_nodes ch)))"
  by (simp add: splice_helix_def Let_def)

lemma fit_helices_loop_family:
  assumes later: "\<And>ch done rest. chain_helices ch = done @ rest \<Longrightarrow> length rest = n \<Longrightarrow>
            \<exists>r. fit_helices_loop minimize ch (length done) = Some r"
  shows "chain_helices ch = done @ family @ rest \<Longrightarrow> length rest = n \<Longrightarrow>
         ordered_family family \<Longrightarrow> sum_list (map range_weight family) \<le> W \<Longrightarrow>
         \<exists>r. fit_helices_loop minimize ch (length done) = Some r"
proof (induction W arbitrary: ch "done" family rest)
  case 0
  have "family = []"
  proof (cases family)
    case (Cons r rs)
    then show ?thesis
      using "0.prems"(4) range_weight_positive [of r] by simp
  qed simp
  then show ?case
    using "0.prems"(1,2) later by simp
next
  case (Suc W)
  show ?case
  proof (cases family)
    case Nil
    then show ?thesis
      using Suc.prems(1,2) later by simp
  next
    case (Cons r rs)
    obtain s e where r: "r = (s, e)"
      by (cases r)
    have hs: "chain_helices ch = done @ (s, e) # rs @ rest"
      using Suc.prems(1) Cons r by simp
    have i: "length done < length (chain_helices ch)"
      "chain_helices ch ! length done = (s, e)"
      using hs by simp_all
    have ord: "ordered_family rs" and after: "\<forall>q \<in> set rs. e \<le> fst q \<and> e \<le> snd q"
      using Suc.prems(3) Cons r by simp_all
    have w: "range_weight (s, e) + sum_list (map range_weight rs) \<le> Suc W"
      using Suc.prems(4) Cons r by simp
    then have wrs: "sum_list (map range_weight rs) \<le> W"
      using range_weight_positive [of "(s, e)"] by simp
    show ?thesis
    proof (cases "e - s < 10")
      case True
      have "chain_helices ch = (done @ [(s, e)]) @ rs @ rest"
        using hs by simp
      then have "\<exists>r. fit_helices_loop minimize ch (length (done @ [(s, e)])) = Some r"
        using Suc.prems(2) ord wrs by (rule Suc.IH)
      then show ?thesis
        using fit_helices_loop_skip [OF i True, of minimize] by simp
    next
      case False
      note unfold = fit_helices_loop_fit [OF i False, of minimize]
      obtain outcome where outcome:
        "fit alpha_helix minimize (py_slice (chain_nodes ch) s e) = Some outcome"
        using fit_returns by blast
      show ?thesis
      proof (cases outcome)
        case (Inr helix_nodes)
        let ?diff = "int (length (py_slice_assign (chain_nodes ch) s e helix_nodes))
          - int (length (chain_nodes ch))"
        let ?ch = "splice_helix ch s e helix_nodes"
        let ?shift = "\<lambda>q :: node_range. (fst q + ?diff, snd q + ?diff)"
        have "\<forall>q \<in> set rs. s < fst q \<and> s < snd q"
          using after False by auto
        then have "update_sec_structure rs s ?diff = map ?shift rs"
          by (rule update_sec_structure_shift)
        then have "chain_helices ?ch =
            (update_sec_structure done s ?diff @ update_sec_structure [(s, e)] s ?diff)
              @ map ?shift rs @ update_sec_structure rest s ?diff"
          using hs by (simp add: splice_helix_helices update_sec_structure_append)
        moreover have "length (update_sec_structure rest s ?diff) = n"
          using Suc.prems(2) by (simp add: update_sec_structure_length)
        moreover have "ordered_family (map ?shift rs)"
          using ord by (rule ordered_family_shift)
        moreover have "sum_list (map range_weight (map ?shift rs)) \<le> W"
          using wrs by (simp only: range_weight_shift)
        ultimately have "\<exists>r. fit_helices_loop minimize ?ch
            (length (update_sec_structure done s ?diff @ update_sec_structure [(s, e)] s ?diff))
            = Some r"
          by (rule Suc.IH)
        then show ?thesis
          using unfold outcome Inr by (simp add: update_sec_structure_length)
      next
        case (Inl err)
        show ?thesis
        proof (cases err)
          case (CurvedScrewAxisError node)
          show ?thesis
          proof (cases "split_helix_at_node node ch (length done)")
            case split: (Inl err')
            then show ?thesis
              using unfold outcome Inl CurvedScrewAxisError by simp
          next
            case split: (Inr ch')
            obtain c where c: "s < c" "c < e"
              and ch': "ch' = ch\<lparr>chain_helices := done @ (s, c) # (c, e) # rs @ rest\<rparr>"
              using split_helix_at_node_shape [OF split hs refl] False by auto
            have "chain_helices ch' = done @ ((s, c) # (c, e) # rs) @ rest"
              using ch' by simp
            moreover have "ordered_family ((s, c) # (c, e) # rs)"
              using ord after c by auto
            moreover have "sum_list (map range_weight ((s, c) # (c, e) # rs)) \<le> W"
              using w range_weight_split [OF c] by simp
            ultimately have "\<exists>r. fit_helices_loop minimize ch' (length done) = Some r"
              using Suc.prems(2) Suc.IH by blast
            then show ?thesis
              using unfold outcome Inl CurvedScrewAxisError split by simp
          qed
        qed (use unfold outcome Inl in simp_all)
      qed
    qed
  qed
qed

lemma fit_helices_loop_returns_from:
  "chain_helices ch = done @ rest \<Longrightarrow>
     \<exists>r. fit_helices_loop minimize ch (length done) = Some r"
proof (induction "length rest" arbitrary: ch "done" rest)
  case 0
  then show ?case
    by (simp add: fit_helices_loop_end)
next
  case (Suc n)
  then obtain r rest' where rest: "rest = r # rest'" and n: "n = length rest'"
    by (cases rest) auto
  show ?case
  proof (rule fit_helices_loop_family
      [where n = n and family = "[r]" and rest = rest' and W = "range_weight r"])
    fix ch' :: chain and done' rest''
    assume "chain_helices ch' = done' @ rest''" "length rest'' = n"
    then show "\<exists>r. fit_helices_loop minimize ch' (length done') = Some r"
      using Suc.hyps(1) [of rest'' ch' done'] by simp
  next
    show "chain_helices ch = done @ [r] @ rest'"
      using Suc.prems rest by simp
  qed (simp_all add: n)
qed

lemma fit_helices_loop_returns: "\<exists>r. fit_helices_loop minimize ch 0 = Some r"
  using fit_helices_loop_returns_from [of ch "[]" "chain_helices ch" minimize] by simp


lemma fit_helices_returns: "\<exists>result. fit_helices minimize chs = Some result"
proof (induction chs)
  case Nil
  then show ?case by simp
next
  case (Cons ch chs)
  obtain r where r: "fit_helices_loop minimize ch 0 = Some r"
    using fit_helices_loop_returns by blast
  obtain rs where rs: "fit_helices minimize chs = Some rs"
    using Cons by blast
  show ?case
    using r rs by (cases r; cases rs) simp_all
qed

text \<open>
  Claim C6. \<^verbatim>\<open>fit_helices\<close> returns for every list of chains (with a value or with an
  exception that is not caught). The loop skips a range of fewer than ten nodes without
  fitting it, and a split of a range of at least ten nodes puts two nonempty ranges in
  its place that are both strictly shorter; with \<open>range_weight\<close> as the measure this
  bounds the number of rounds spent on every range of the work list.
\<close>

theorem fit_helices_terminates:
  "(\<exists>result. fit_helices minimize chs = Some result) \<and>
   (\<forall>ch i s e. i < length (chain_helices ch) \<longrightarrow> chain_helices ch ! i = (s, e) \<longrightarrow>
      e - s < 10 \<longrightarrow>
      fit_helices_loop minimize ch i = fit_helices_loop minimize ch (i + 1)) \<and>
   (\<forall>node ch i s e ch'. i < length (chain_helices ch) \<longrightarrow> chain_helices ch ! i = (s, e) \<longrightarrow>
      10 \<le> e - s \<longrightarrow> split_helix_at_node node ch i = Inr ch' \<longrightarrow>
      (\<exists>c. chain_helices ch' =
              take i (chain_helices ch) @ [(s, c), (c, e)] @ drop (Suc i) (chain_helices ch) \<and>
            0 < c - s \<and> c - s < e - s \<and> 0 < e - c \<and> e - c < e - s \<and>
            range_weight (s, c) + range_weight (c, e) < range_weight (s, e)))"
proof (intro conjI allI impI)
  show "\<exists>result. fit_helices minimize chs = Some result"
    by (rule fit_helices_returns)
next
  fix ch :: chain and i s e
  assume "i < length (chain_helices ch)" "chain_helices ch ! i = (s, e)" "e - s < 10"
  then show "fit_helices_loop minimize ch i = fit_helices_loop minimize ch (i + 1)"
    by (rule fit_helices_loop_skip)
next
  fix node and ch ch' :: chain and i s e
  assume i: "i < length (chain_helices ch)" and r: "chain_helices ch ! i = (s, e)"
    and l: "10 \<le> e - s" and split: "split_helix_at_node node ch i = Inr ch'"
  have hs: "chain_helices ch = take i (chain_helices ch) @ (s, e) # drop (Suc i) (chain_helices ch)"
    using id_take_nth_drop [OF i] r by simp
  have len: "i = length (take i (chain_helices ch))"
    using i by simp
  obtain c where c: "s < c" "c < e"
    and ch': "ch' = ch\<lparr>chain_helices :=
      take i (chain_helices ch) @ (s, c) # (c, e) # drop (Suc i) (chain_helices ch)\<rparr>"
    using split_helix_at_node_shape [OF split hs len] l by auto
  have "chain_helices ch' =
      take i (chain_helices ch) @ [(s, c), (c, e)] @ drop (Suc i) (chain_helices ch)"
    using ch' by simp
  then show "\<exists>c. chain_helices ch' =
              take i (chain_helices ch) @ [(s, c), (c, e)] @ drop (Suc i) (chain_helices ch) \<and>
            0 < c - s \<and> c - s < e - s \<and> 0 < e - c \<and> e - c < e - s \<and>
            range_weight (s, c) + range_weight (c, e) < range_weight (s, e)"
    using c range_weight_split [OF c] by auto
qed

theorem fit_helices_terminates_witness:
  "fit_helices (\<lambda>objective start. start)
     [\<lparr>chain_nodes = [(0, 0, 0), (1, 0, 0), (2, 0, 0)], chain_sheets = [],
       chain_helices = [(0, 3)]\<rparr>]
     = Some (Inr [\<lparr>chain_nodes = [(0, 0, 0), (1, 0, 0), (2, 0, 0)], chain_sheets = [],
       chain_helices = [(0, 3)]\<rparr>]) \<and>
   (\<exists>c. chain_helices
      \<lparr>chain_nodes = [(0, 0, 0), (1, 0, 0), (2, 0, 0), (3, 0, 0), (4, 0, 0), (5, 0, 0),
         (6, 0, 0), (7, 0, 0), (8, 0, 0), (9, 0, 0)], chain_sheets = [],
       chain_helices = [(0, 4), (4, 10)]\<rparr> = [(0, c), (c, 10)] \<and>
      0 < c - 0 \<and> c - 0 < 10 - 0 \<and> 0 < 10 - c \<and> 10 - c < 10 - 0)"
proof -
  let ?m = "(\<lambda>objective start. start) :: minimizer"
  let ?short = "\<lparr>chain_nodes = [(0, 0, 0), (1, 0, 0), (2, 0, 0)], chain_sheets = [],
       chain_helices = [(0, 3)]\<rparr>"
  let ?line = "[(0, 0, 0), (1, 0, 0), (2, 0, 0), (3, 0, 0), (4, 0, 0), (5, 0, 0),
         (6, 0, 0), (7, 0, 0), (8, 0, 0), (9, 0, 0)] :: point list"
  let ?long = "\<lparr>chain_nodes = ?line, chain_sheets = [], chain_helices = [(0, 10)]\<rparr>"
  let ?parts = "\<lparr>chain_nodes = ?line, chain_sheets = [], chain_helices = [(0, 4), (4, 10)]\<rparr>"
  note t = fit_helices_terminates [of ?m "[?short]"]
  have i: "0 < length (chain_helices ?short)" "chain_helices ?short ! 0 = (0, 3)"
    "(3 :: int) - 0 < 10"
    by simp_all
  have "fit_helices_loop ?m ?short 0 = fit_helices_loop ?m ?short (0 + 1)"
    using t i by blast
  also have "\<dots> = Some (Inr ?short)"
    by (rule fit_helices_loop_end) simp
  finally have a: "fit_helices ?m [?short] = Some (Inr [?short])"
    by simp
  have split: "split_helix_at_node (4, 1, 0) ?long 0 = Inr ?parts"
    by (simp add: split_helix_at_node_def upto.simps py_index_def get_distance_def vsub_def
        norm3_def Let_def)
  have j: "0 < length (chain_helices ?long)" "chain_helices ?long ! 0 = (0, 10)"
    "(10 :: int) \<le> 10 - 0"
    by simp_all
  from t j split have "\<exists>c. chain_helices ?parts =
      take 0 (chain_helices ?long) @ [(0, c), (c, 10)] @ drop (Suc 0) (chain_helices ?long) \<and>
      0 < c - 0 \<and> c - 0 < 10 - 0 \<and> 0 < 10 - c \<and> 10 - c < 10 - 0 \<and>
      range_weight (0, c) + range_weight (c, 10) < range_weight (0, 10)"
    by blast
  then have "\<exists>c. chain_helices ?parts = [(0, c), (c, 10)] \<and>
      0 < c - 0 \<and> c - 0 < 10 - 0 \<and> 0 < 10 - c \<and> 10 - c < 10 - 0"
    by auto
  then show ?thesis
    using a by blast
qed

subsection \<open>Numbers as text\<close>

declare str_nat.simps [simp del]

lemma digit_char_digit: "d < 10 \<Longrightarrow> is_digit (digit_char d) \<and> digit_val (digit_char d) = d"
  by (simp add: is_digit_def digit_val_def digit_char_def)

lemma digits_val_snoc: "digits_val (ds @ [ch]) = 10 * digits_val ds + digit_val ch"
  by (simp add: digits_val_def)

lemma str_nat_digits:
  "list_all is_digit (str_nat n) \<and> str_nat n \<noteq> [] \<and> digits_val (str_nat n) = n"
proof (induction n rule: str_nat.induct)
  case (1 n)
  show ?case
  proof (cases "n < 10")
    case True
    then show ?thesis
      using digit_char_digit [of n] by (subst (1 2 3) str_nat.simps) (simp add: digits_val_def)
  next
    case False
    have "n mod 10 < 10"
      by simp
    then show ?thesis
      using False 1 digit_char_digit [of "n mod 10"]
      by (subst (1 2 3) str_nat.simps) (simp add: digits_val_snoc)
  qed
qed

lemma length_str_nat: "0 < k \<Longrightarrow> n < 10 ^ k \<Longrightarrow> length (str_nat n) \<le> k"
proof (induction k arbitrary: n)
  case 0
  then show ?case by simp
next
  case (Suc k)
  show ?case
  proof (cases "n < 10")
    case True
    then show ?thesis by (subst str_nat.simps) simp
  next
    case False
    then have "0 < k"
      using Suc.prems by (cases k) auto
    moreover have "n div 10 < 10 ^ k"
      using Suc.prems by (simp add: less_mult_imp_div_less mult.commute)
    ultimately have "length (str_nat (n div 10)) \<le> k"
      by (rule Suc.IH)
    then show ?thesis
      using False by (subst str_nat.simps) simp
  qed
qed

lemma digit_not_space: "is_digit ch \<Longrightarrow> \<not> is_space ch"
  by (auto simp: is_digit_def is_space_def)

lemma strip_padded:
  assumes "s \<noteq> []" and "\<not> is_space (hd s)" and "\<not> is_space (last s)"
  shows "strip (replicate k CHR '' '' @ s) = s"
proof -
  have sp: "is_space CHR '' ''"
    by (simp add: is_space_def)
  obtain c cs where s: "s = c # cs"
    using assms(1) by (cases s) auto
  have "dropWhile is_space (replicate k CHR '' '' @ s) = s"
    using assms(2) s sp by (induction k) simp_all
  moreover have "dropWhile is_space (rev s) = rev s"
    using assms(1,3) by (cases "rev s") (auto simp: last_rev [symmetric] hd_rev)
  ultimately show ?thesis
    by (simp add: strip_def)
qed


lemma hd_str_nat_digit: "is_digit (hd (str_nat n))"
  using str_nat_digits [of n] by (cases "str_nat n") simp_all

lemma last_str_nat_digit: "is_digit (last (str_nat n))"
  using str_nat_digits [of n] by (cases "str_nat n" rule: rev_cases) simp_all

lemma digit_not_sign: "is_digit ch \<Longrightarrow> ch \<noteq> CHR ''-'' \<and> ch \<noteq> CHR ''+'' \<and> ch \<noteq> CHR ''.''"
  by (auto simp: is_digit_def)

lemma split_sign_digits: "is_digit (hd s) \<Longrightarrow> s \<noteq> [] \<Longrightarrow> split_sign s = (False, s)"
  using digit_not_sign [of "hd s"] by (cases s) (auto simp: split_sign_def)

lemma py_int_rjust: "py_int (rjust k (str_int n)) = Inr n"
proof (cases "n < 0")
  case True
  let ?ds = "str_nat (nat (- n))"
  have si: "str_int n = CHR ''-'' # ?ds"
    using True by (simp add: str_int_def)
  have "strip (rjust k (str_int n)) = CHR ''-'' # ?ds"
    unfolding rjust_def si using last_str_nat_digit [of "nat (- n)"] str_nat_digits [of "nat (- n)"]
    by (intro strip_padded) (auto simp: is_space_def dest: digit_not_space)
  then show ?thesis
    using True str_nat_digits [of "nat (- n)"] by (simp add: py_int_def split_sign_def)
next
  case False
  let ?ds = "str_nat (nat n)"
  have si: "str_int n = ?ds"
    using False by (simp add: str_int_def)
  have "strip (rjust k (str_int n)) = ?ds"
    unfolding rjust_def si
    using last_str_nat_digit [of "nat n"] hd_str_nat_digit [of "nat n"]
      str_nat_digits [of "nat n"]
    by (intro strip_padded) (auto dest: digit_not_space)
  moreover have "split_sign ?ds = (False, ?ds)"
    using hd_str_nat_digit str_nat_digits by (intro split_sign_digits) auto
  ultimately show ?thesis
    using False str_nat_digits [of "nat n"] by (simp add: py_int_def)
qed

lemma length_str_int: "0 \<le> n \<Longrightarrow> n \<le> 9999 \<Longrightarrow> length (str_int n) \<le> 4"
  using length_str_nat [of 4 "nat n"] by (simp add: str_int_def)

lemma length_rjust: "length s \<le> k \<Longrightarrow> length (rjust k s) = k"
  by (simp add: rjust_def)

text \<open>The text of a coordinate: a sign, the digits before the point and three after it.\<close>

lemma digits_val_zeros: "digits_val (replicate k CHR ''0'' @ ds) = digits_val ds"
proof -
  have "foldl (\<lambda>acc ch. 10 * acc + digit_val ch) 0 (replicate k CHR ''0'') = 0"
    by (induction k) (simp_all add: digit_val_def)
  then show ?thesis
    by (simp add: digits_val_def)
qed

lemma fraction_digits:
  assumes "n < 1000"
  shows "length (replicate (3 - length (str_nat n)) CHR ''0'' @ str_nat n) = 3 \<and>
         list_all is_digit (replicate (3 - length (str_nat n)) CHR ''0'' @ str_nat n) \<and>
         digits_val (replicate (3 - length (str_nat n)) CHR ''0'' @ str_nat n) = n"
proof -
  have "length (str_nat n) \<le> 3"
    using assms length_str_nat [of 3 n] by simp
  moreover have "is_digit CHR ''0''"
    by (simp add: is_digit_def)
  ultimately show ?thesis
    using str_nat_digits [of n] by (auto simp: digits_val_zeros list_all_iff)
qed

lemma takeWhile_digits:
  "list_all is_digit ds \<Longrightarrow> takeWhile is_digit (ds @ CHR ''.'' # fs) = ds \<and>
     dropWhile is_digit (ds @ CHR ''.'' # fs) = CHR ''.'' # fs"
  by (induction ds) (simp_all add: is_digit_def)

lemma py_float_digits:
  assumes "list_all is_digit ds" and "ds \<noteq> []" and "list_all is_digit fs"
  shows "py_float (replicate k CHR '' '' @ ds @ CHR ''.'' # fs)
           = Inr (real (digits_val ds) + real (digits_val fs) / 10 ^ length fs)"
    and "py_float (replicate k CHR '' '' @ CHR ''-'' # ds @ CHR ''.'' # fs)
           = Inr (- (real (digits_val ds) + real (digits_val fs) / 10 ^ length fs))"
proof -
  have hd_ds: "is_digit (hd ds)"
    using assms(1,2) by (cases ds) simp_all
  have end_ok: "\<not> is_space (last (ds @ CHR ''.'' # fs))"
    using assms(3) by (cases fs rule: rev_cases) (auto simp: is_space_def dest: digit_not_space)
  have tw: "takeWhile is_digit (ds @ CHR ''.'' # fs) = ds"
    and dw: "dropWhile is_digit (ds @ CHR ''.'' # fs) = CHR ''.'' # fs"
    using takeWhile_digits [OF assms(1), of fs] by simp_all
  have nd: "\<not> is_digit CHR ''.''"
    by (simp add: is_digit_def)
  have st: "strip (replicate k CHR '' '' @ (ds @ CHR ''.'' # fs)) = ds @ CHR ''.'' # fs"
    using assms(2) hd_ds end_ok by (intro strip_padded) (auto dest: digit_not_space)
  have sg: "split_sign (ds @ CHR ''.'' # fs) = (False, ds @ CHR ''.'' # fs)"
    using assms(2) hd_ds by (intro split_sign_digits) auto
  show "py_float (replicate k CHR '' '' @ ds @ CHR ''.'' # fs)
           = Inr (real (digits_val ds) + real (digits_val fs) / 10 ^ length fs)"
    unfolding py_float_def st sg using assms(2,3) nd by (simp add: Let_def tw dw)
  have st': "strip (replicate k CHR '' '' @ (CHR ''-'' # ds @ CHR ''.'' # fs))
      = CHR ''-'' # ds @ CHR ''.'' # fs"
    using end_ok assms(2) by (intro strip_padded) (auto simp: is_space_def)
  have sg': "split_sign (CHR ''-'' # ds @ CHR ''.'' # fs) = (True, ds @ CHR ''.'' # fs)"
    by (simp add: split_sign_def)
  show "py_float (replicate k CHR '' '' @ CHR ''-'' # ds @ CHR ''.'' # fs)
           = Inr (- (real (digits_val ds) + real (digits_val fs) / 10 ^ length fs))"
    unfolding py_float_def st' sg' using assms(2,3) nd by (simp add: Let_def tw dw)
qed

lemma py_float_format_3f: "py_float (replicate k CHR '' '' @ format_3f x) = Inr (round_3f x)"
proof -
  define m where "m = nat (round_half_even (\<bar>x\<bar> * 1000))"
  define ds where "ds = str_nat (m div 1000)"
  define fs where
    "fs = replicate (3 - length (str_nat (m mod 1000))) CHR ''0'' @ str_nat (m mod 1000)"
  have f: "length fs = 3" "list_all is_digit fs" "digits_val fs = m mod 1000"
    using fraction_digits [of "m mod 1000"] by (simp_all add: fs_def)
  have d: "list_all is_digit ds" "ds \<noteq> []" "digits_val ds = m div 1000"
    using str_nat_digits [of "m div 1000"] by (simp_all add: ds_def)
  have "real m = real (1000 * (m div 1000) + m mod 1000)"
    by simp
  then have "real m = 1000 * real (m div 1000) + real (m mod 1000)"
    by (simp only: of_nat_add of_nat_mult of_nat_numeral)
  then have v: "real (digits_val ds) + real (digits_val fs) / 10 ^ length fs = real m / 1000"
    by (simp add: f d)
  show ?thesis
  proof (cases "x < 0")
    case True
    have "format_3f x = CHR ''-'' # ds @ CHR ''.'' # fs"
      using True by (simp add: format_3f_def m_def ds_def fs_def Let_def)
    then have "py_float (replicate k CHR '' '' @ format_3f x) = Inr (- (real m / 1000))"
      using py_float_digits(2) [OF d(1,2) f(2), of k] by (simp only: v)
    then show ?thesis
      using True by (simp add: round_3f_def m_def)
  next
    case False
    have "format_3f x = ds @ CHR ''.'' # fs"
      using False by (simp add: format_3f_def m_def ds_def fs_def Let_def)
    then have "py_float (replicate k CHR '' '' @ format_3f x) = Inr (real m / 1000)"
      using py_float_digits(1) [OF d(1,2) f(2), of k] by (simp only: v)
    then show ?thesis
      using False by (simp add: round_3f_def m_def)
  qed
qed

subsection \<open>Slices of the lines\<close>

lemma py_slice_field:
  "length a = m \<Longrightarrow> length f = n \<Longrightarrow> py_slice (a @ f @ r) (int m) (int (m + n)) = f"
  by (simp add: py_slice_def slice_bound_def Let_def min_def)

lemma py_slice_to_prefix: "length a = m \<Longrightarrow> py_slice_to (a @ r) (int m) = a"
  by (simp add: py_slice_to_def slice_bound_def Let_def min_def)

lemma field_chars_str_nat: "list_all is_field_char (str_nat n)"
  using str_nat_digits [of n] by (auto simp: list_all_iff is_field_char_def)

lemma field_chars_str_int: "list_all is_field_char (str_int n)"
  using field_chars_str_nat by (simp add: str_int_def is_field_char_def)

lemma field_chars_rjust: "list_all is_field_char s \<Longrightarrow> list_all is_field_char (rjust k s)"
  by (auto simp: rjust_def list_all_iff is_field_char_def)

lemma field_chars_format_3f: "list_all is_field_char (format_3f x)"
proof -
  have "is_field_char CHR ''0''" "is_field_char CHR ''-''" "is_field_char CHR ''.''"
    by (simp_all add: is_field_char_def is_digit_def)
  then show ?thesis
    using field_chars_str_nat by (auto simp: format_3f_def Let_def list_all_iff)
qed

lemma field_char_plain: "is_field_char ch \<Longrightarrow> ch \<noteq> newline \<and> ch \<noteq> CHR ''T''"
  by (auto simp: is_field_char_def is_digit_def newline_def)

lemma field_chars_plain:
  "list_all is_field_char s \<Longrightarrow> newline \<notin> set s \<and> CHR ''T'' \<notin> set s"
  using field_char_plain by (auto simp: list_all_iff)

lemma no_T_no_TER: "CHR ''T'' \<notin> set s \<Longrightarrow> \<not> contains ''TER'' s"
  by (induction s) auto

lemma is_record_snoc: "newline \<notin> set body \<Longrightarrow> is_record (body @ [newline])"
  by (simp add: is_record_def)


lemma file_lines_from_record:
  "newline \<notin> set body \<Longrightarrow>
     file_lines_from current (body @ newline # rest)
       = (current @ body @ [newline]) # file_lines_from [] rest"
  by (induction body arbitrary: current) auto

lemma file_lines_records:
  "list_all is_record records \<Longrightarrow> file_lines (concat records) = records"
  unfolding file_lines_def
proof (induction records)
  case Nil
  then show ?case by simp
next
  case (Cons r records)
  then have r: "r \<noteq> []" "last r = newline" "newline \<notin> set (butlast r)"
    by (simp_all add: is_record_def)
  then have "r = butlast r @ [newline]"
    using append_butlast_last_id [of r] by simp
  then have "file_lines_from [] (concat (r # records))
      = file_lines_from [] (butlast r @ newline # concat records)"
    by (metis append.assoc append_Cons append_Nil concat.simps(2))
  also have "\<dots> = ([] @ butlast r @ [newline]) # file_lines_from [] (concat records)"
    using r(3) by (rule file_lines_from_record)
  finally show ?case
    using Cons r append_butlast_last_id [of r] by simp
qed

text \<open>The three kinds of lines and what \<^verbatim>\<open>read_pdb\<close> sees in them.\<close>

lemma helix_line_parts:
  assumes "0 \<le> a + 1" and "a + 1 \<le> 9999" and "0 \<le> b" and "b \<le> 9999"
  shows "parse_helix (format_helix_info ''A'' a b) chs = Inr (locate_helix (a, b) 0 chs)"
    and "py_int (py_slice (format_helix_info ''A'' a b) 33 37) = Inr b"
    and "py_slice_to (format_helix_info ''A'' a b) 4 \<noteq> ''ATOM''"
    and "py_slice_to (format_helix_info ''A'' a b) 5 = ''HELIX''"
    and "\<not> contains ''TER'' (format_helix_info ''A'' a b)"
    and "is_record (format_helix_info ''A'' a b)"
proof -
  define f1 where "f1 = rjust 4 (str_int (a + 1))"
  define f2 where "f2 = rjust 4 (str_int b)"
  have l: "length f1 = 4" "length f2 = 4"
    using assms length_str_int by (simp_all add: f1_def f2_def length_rjust)
  have c: "list_all is_field_char f1" "list_all is_field_char f2"
    by (simp_all add: f1_def f2_def field_chars_rjust field_chars_str_int)
  have line: "format_helix_info ''A'' a b
      = ''HELIX    1   1 GLY A '' @ f1 @ ''  GLY A '' @ f2 @ ''  1'' @ [newline]"
    by (simp add: format_helix_info_def f1_def f2_def)
  have "py_slice (''HELIX    1   1 GLY A '' @ f1 @ (''  GLY A '' @ f2 @ ''  1'' @ [newline]))
      (int 21) (int (21 + 4)) = f1"
    using l by (intro py_slice_field) simp_all
  then have s1: "py_slice (format_helix_info ''A'' a b) 21 25 = f1"
    by (simp add: line)
  have "py_slice ((''HELIX    1   1 GLY A '' @ f1 @ ''  GLY A '') @ f2 @ (''  1'' @ [newline]))
      (int 33) (int (33 + 4)) = f2"
    using l by (intro py_slice_field) simp_all
  then have s2: "py_slice (format_helix_info ''A'' a b) 33 37 = f2"
    by (simp add: line)
  show "parse_helix (format_helix_info ''A'' a b) chs = Inr (locate_helix (a, b) 0 chs)"
    by (simp add: parse_helix_def s1 s2 f1_def f2_def py_int_rjust)
  show "py_int (py_slice (format_helix_info ''A'' a b) 33 37) = Inr b"
    by (simp add: s2 f2_def py_int_rjust)
  have "py_slice_to (''HELI'' @ (''X    1   1 GLY A '' @ f1 @ ''  GLY A '' @ f2 @ ''  1'' @ [newline]))
      (int 4) = ''HELI''"
    by (intro py_slice_to_prefix) simp
  then show "py_slice_to (format_helix_info ''A'' a b) 4 \<noteq> ''ATOM''"
    by (simp add: line)
  have "py_slice_to (''HELIX'' @ (''    1   1 GLY A '' @ f1 @ ''  GLY A '' @ f2 @ ''  1'' @ [newline]))
      (int 5) = ''HELIX''"
    by (intro py_slice_to_prefix) simp
  then show "py_slice_to (format_helix_info ''A'' a b) 5 = ''HELIX''"
    by (simp add: line)
  have p: "newline \<notin> set f1" "CHR ''T'' \<notin> set f1" "newline \<notin> set f2" "CHR ''T'' \<notin> set f2"
    using c field_chars_plain by blast+
  have "CHR ''T'' \<notin> set (format_helix_info ''A'' a b)"
    using p by (simp add: line newline_def)
  then show "\<not> contains ''TER'' (format_helix_info ''A'' a b)"
    by (rule no_T_no_TER)
  have "format_helix_info ''A'' a b
      = (''HELIX    1   1 GLY A '' @ f1 @ ''  GLY A '' @ f2 @ ''  1'') @ [newline]"
    by (simp add: line)
  moreover have "newline \<notin> set (''HELIX    1   1 GLY A '' @ f1 @ ''  GLY A '' @ f2 @ ''  1'')"
    using p by (simp add: newline_def)
  ultimately show "is_record (format_helix_info ''A'' a b)"
    using is_record_snoc by metis
qed


lemma sheet_line_parts:
  assumes "0 \<le> a + 1" and "a + 1 \<le> 9999" and "0 \<le> b + 1" and "b + 1 \<le> 9999"
  shows "parse_sheet (format_sheet_info ''A'' a b) chs = Inr (locate_sheet (a, b) 0 chs)"
    and "py_int (py_slice (format_sheet_info ''A'' a b) 33 37) = Inr (b + 1)"
    and "py_slice_to (format_sheet_info ''A'' a b) 4 \<noteq> ''ATOM''"
    and "py_slice_to (format_sheet_info ''A'' a b) 5 \<noteq> ''HELIX''"
    and "py_slice_to (format_sheet_info ''A'' a b) 5 = ''SHEET''"
    and "\<not> contains ''TER'' (format_sheet_info ''A'' a b)"
    and "is_record (format_sheet_info ''A'' a b)"
proof -
  define f1 where "f1 = rjust 4 (str_int (a + 1))"
  define f2 where "f2 = rjust 4 (str_int (b + 1))"
  have l: "length f1 = 4" "length f2 = 4"
    using assms length_str_int by (simp_all add: f1_def f2_def length_rjust)
  have c: "list_all is_field_char f1" "list_all is_field_char f2"
    by (simp_all add: f1_def f2_def field_chars_rjust field_chars_str_int)
  have line: "format_sheet_info ''A'' a b
      = ''SHEET    1   A 6 GLY A'' @ f1 @ ''  GLY A'' @ f2 @ ''  0'' @ [newline]"
    by (simp add: format_sheet_info_def f1_def f2_def)
  have "py_slice (''SHEET    1   A 6 GLY A'' @ f1 @ (''  GLY A'' @ f2 @ ''  0'' @ [newline]))
      (int 22) (int (22 + 4)) = f1"
    using l by (intro py_slice_field) simp_all
  then have s1: "py_slice (format_sheet_info ''A'' a b) 22 26 = f1"
    by (simp add: line)
  have "py_slice ((''SHEET    1   A 6 GLY A'' @ f1 @ ''  GLY A'') @ f2 @ (''  0'' @ [newline]))
      (int 33) (int (33 + 4)) = f2"
    using l by (intro py_slice_field) simp_all
  then have s2: "py_slice (format_sheet_info ''A'' a b) 33 37 = f2"
    by (simp add: line)
  show "parse_sheet (format_sheet_info ''A'' a b) chs = Inr (locate_sheet (a, b) 0 chs)"
    by (simp add: parse_sheet_def s1 s2 f1_def f2_def py_int_rjust)
  show "py_int (py_slice (format_sheet_info ''A'' a b) 33 37) = Inr (b + 1)"
    by (simp add: s2 f2_def py_int_rjust)
  have "py_slice_to (''SHEE'' @ (''T    1   A 6 GLY A'' @ f1 @ ''  GLY A'' @ f2 @ ''  0'' @ [newline]))
      (int 4) = ''SHEE''"
    by (intro py_slice_to_prefix) simp
  then show "py_slice_to (format_sheet_info ''A'' a b) 4 \<noteq> ''ATOM''"
    by (simp add: line)
  have "py_slice_to (''SHEET'' @ (''    1   A 6 GLY A'' @ f1 @ ''  GLY A'' @ f2 @ ''  0'' @ [newline]))
      (int 5) = ''SHEET''"
    by (intro py_slice_to_prefix) simp
  then show "py_slice_to (format_sheet_info ''A'' a b) 5 \<noteq> ''HELIX''"
    and "py_slice_to (format_sheet_info ''A'' a b) 5 = ''SHEET''"
    by (simp_all add: line)
  have p: "newline \<notin> set f1" "CHR ''T'' \<notin> set f1" "newline \<notin> set f2" "CHR ''T'' \<notin> set f2"
    using c field_chars_plain by blast+
  have "CHR ''T'' \<notin> set (f1 @ ''  GLY A'' @ f2 @ ''  0'' @ [newline])"
    using p by (simp add: newline_def)
  then have "\<not> contains ''TER'' (f1 @ ''  GLY A'' @ f2 @ ''  0'' @ [newline])"
    by (rule no_T_no_TER)
  then show "\<not> contains ''TER'' (format_sheet_info ''A'' a b)"
    by (simp add: line)
  have "format_sheet_info ''A'' a b
      = (''SHEET    1   A 6 GLY A'' @ f1 @ ''  GLY A'' @ f2 @ ''  0'') @ [newline]"
    by (simp add: line)
  moreover have "newline \<notin> set (''SHEET    1   A 6 GLY A'' @ f1 @ ''  GLY A'' @ f2 @ ''  0'')"
    using p by (simp add: newline_def)
  ultimately show "is_record (format_sheet_info ''A'' a b)"
    using is_record_snoc by metis
qed

lemma field_chars_padded:
  "list_all is_field_char s \<Longrightarrow> list_all is_field_char (replicate k CHR '' '' @ s)"
  by (auto simp: list_all_iff is_field_char_def)

lemma rjust_8_short:
  "length s \<le> 7 \<Longrightarrow> rjust 8 s = CHR '' '' # (replicate (7 - length s) CHR '' '' @ s)"
  by (simp add: rjust_def Suc_diff_le numeral_eq_Suc)

lemma node_line_parts:
  assumes "0 \<le> n" and "n \<le> 9999" and "short_text node"
  shows "parse_node (format_node node ''A'' n) = Inr (round_point node)"
    and "py_slice_to (format_node node ''A'' n) 4 = ''ATOM''"
    and "\<not> contains ''TER'' (format_node node ''A'' n)"
    and "is_record (format_node node ''A'' n)"
proof -
  obtain x y z where node: "node = (x, y, z)"
    by (cases node)
  define fn where "fn = rjust 4 (str_int n)"
  define fx where "fx = replicate (7 - length (format_3f x)) CHR '' '' @ format_3f x"
  define fy where "fy = replicate (7 - length (format_3f y)) CHR '' '' @ format_3f y"
  define fz where "fz = replicate (7 - length (format_3f z)) CHR '' '' @ format_3f z"
  have short: "length (format_3f x) \<le> 7" "length (format_3f y) \<le> 7" "length (format_3f z) \<le> 7"
    using assms(3) node by (simp_all add: short_text_def)
  have l: "length fn = 4" "length fx = 7" "length fy = 7" "length fz = 7"
    using assms(1,2) length_str_int short by (simp_all add: fn_def fx_def fy_def fz_def length_rjust)
  have c: "list_all is_field_char fn" "list_all is_field_char fx" "list_all is_field_char fy"
    "list_all is_field_char fz"
    by (simp_all only: fn_def fx_def fy_def fz_def field_chars_rjust field_chars_str_int
        field_chars_padded field_chars_format_3f)
  have v: "py_float fx = Inr (round_3f x)" "py_float fy = Inr (round_3f y)"
    "py_float fz = Inr (round_3f z)"
    by (simp_all add: fx_def fy_def fz_def py_float_format_3f)
  have line: "format_node node ''A'' n
      = ''ATOM      1  CA  GLY A'' @ fn @ ''     '' @ fx @ '' '' @ fy @ '' '' @ fz
          @ ''  1.00  0.00           C  '' @ [newline]"
    using short by (simp add: format_node_def node fn_def fx_def fy_def fz_def rjust_8_short)
  have "py_slice ((''ATOM      1  CA  GLY A'' @ fn @ ''     '') @ fx
      @ ('' '' @ fy @ '' '' @ fz @ ''  1.00  0.00           C  '' @ [newline]))
      (int 31) (int (31 + 7)) = fx"
    using l by (intro py_slice_field) simp_all
  then have s1: "py_slice (format_node node ''A'' n) 31 38 = fx"
    by (simp add: line)
  have "py_slice ((''ATOM      1  CA  GLY A'' @ fn @ ''     '' @ fx @ '' '') @ fy
      @ ('' '' @ fz @ ''  1.00  0.00           C  '' @ [newline]))
      (int 39) (int (39 + 7)) = fy"
    using l by (intro py_slice_field) simp_all
  then have s2: "py_slice (format_node node ''A'' n) 39 46 = fy"
    by (simp add: line)
  have "py_slice ((''ATOM      1  CA  GLY A'' @ fn @ ''     '' @ fx @ '' '' @ fy @ '' '') @ fz
      @ (''  1.00  0.00           C  '' @ [newline]))
      (int 47) (int (47 + 7)) = fz"
    using l by (intro py_slice_field) simp_all
  then have s3: "py_slice (format_node node ''A'' n) 47 54 = fz"
    by (simp add: line)
  show "parse_node (format_node node ''A'' n) = Inr (round_point node)"
    unfolding parse_node_def s1 s2 s3 v by (simp add: round_point_def node)
  have "py_slice_to (''ATOM'' @ (''      1  CA  GLY A'' @ fn @ ''     '' @ fx @ '' '' @ fy @ '' ''
      @ fz @ ''  1.00  0.00           C  '' @ [newline])) (int 4) = ''ATOM''"
    by (intro py_slice_to_prefix) simp
  then show "py_slice_to (format_node node ''A'' n) 4 = ''ATOM''"
    by (simp add: line)
  have p: "newline \<notin> set fn" "CHR ''T'' \<notin> set fn" "newline \<notin> set fx" "CHR ''T'' \<notin> set fx"
    "newline \<notin> set fy" "CHR ''T'' \<notin> set fy" "newline \<notin> set fz" "CHR ''T'' \<notin> set fz"
    using c field_chars_plain by blast+
  have "CHR ''T'' \<notin> set (fn @ ''     '' @ fx @ '' '' @ fy @ '' '' @ fz
          @ ''  1.00  0.00           C  '' @ [newline])"
    using p by (simp add: newline_def)
  then have "\<not> contains ''TER'' (fn @ ''     '' @ fx @ '' '' @ fy @ '' '' @ fz
          @ ''  1.00  0.00           C  '' @ [newline])"
    by (rule no_T_no_TER)
  then show "\<not> contains ''TER'' (format_node node ''A'' n)"
    by (simp add: line)
  have "format_node node ''A'' n
      = (''ATOM      1  CA  GLY A'' @ fn @ ''     '' @ fx @ '' '' @ fy @ '' '' @ fz
          @ ''  1.00  0.00           C  '') @ [newline]"
    by (simp add: line)
  moreover have "newline \<notin> set (''ATOM      1  CA  GLY A'' @ fn @ ''     '' @ fx @ '' '' @ fy
      @ '' '' @ fz @ ''  1.00  0.00           C  '')"
    using p by (simp add: newline_def)
  ultimately show "is_record (format_node node ''A'' n)"
    using is_record_snoc by metis
qed

lemma ter_line_parts:
  "read_pdb_line chs (''TER'' @ [newline]) = Inr (chs @ [empty_chain])"
  "is_record (''TER'' @ [newline])"
  by (simp_all add: read_pdb_line_def py_slice_to_def slice_bound_def newline_def is_record_def)

subsection \<open>Reading the lines back\<close>

lemma read_pdb_loop_append:
  "read_pdb_loop chs (xs @ ys) =
     (case read_pdb_loop chs xs of Inl e \<Rightarrow> Inl e | Inr chs' \<Rightarrow> read_pdb_loop chs' ys)"
  by (induction xs arbitrary: chs) (simp_all split: sum.splits)

lemma write_pdb_loop_lines:
  "write_pdb_loop chs offset nodes_str helices_str sheets_str =
     concat (nodes_str @ atom_lines chs offset) @ concat (helices_str @ helix_lines chs offset)
       @ concat (sheets_str @ sheet_lines chs offset)"
  by (induction chs arbitrary: offset nodes_str helices_str sheets_str) simp_all

lemma write_pdb_lines:
  "write_pdb chs = concat (atom_lines chs 0 @ helix_lines chs 0 @ sheet_lines chs 0)"
  by (simp add: write_pdb_def write_pdb_loop_lines)

lemma total_size_nonneg: "0 \<le> total_size chs"
  by (induction chs) (simp_all add: total_size_def)

lemma total_size_Cons:
  "total_size (ch # chs) = int (length (chain_nodes ch)) + 1 + total_size chs"
  by (simp add: total_size_def)

lemma total_size_snoc:
  "total_size (chs @ [ch]) = total_size chs + int (length (chain_nodes ch)) + 1"
  by (simp add: total_size_def)

lemma read_node_line:
  assumes "0 \<le> n" and "n \<le> 9999" and "short_text node"
  shows "read_pdb_line (done @ [cur]) (format_node node ''A'' n)
           = Inr (done @ [cur\<lparr>chain_nodes := chain_nodes cur @ [round_point node]\<rparr>])"
  using node_line_parts [OF assms] by (simp add: read_pdb_line_def)

lemma node_lines_Cons:
  "map (\<lambda>i. format_node ((x # xs) ! i) ''A'' (offset + int i + 1)) [0 ..< length (x # xs)]
     = format_node x ''A'' (offset + 1)
         # map (\<lambda>i. format_node (xs ! i) ''A'' ((offset + 1) + int i + 1)) [0 ..< length xs]"
  by (simp add: map_upt_Suc del: upt_Suc)

lemma read_node_lines:
  assumes "0 \<le> offset" and "offset + int (length nodes) \<le> 9999"
    and "list_all short_text nodes"
  shows "read_pdb_loop (done @ [cur])
           (map (\<lambda>i. format_node (nodes ! i) ''A'' (offset + int i + 1)) [0 ..< length nodes])
         = Inr (done @ [cur\<lparr>chain_nodes := chain_nodes cur @ map round_point nodes\<rparr>])"
  using assms
proof (induction nodes arbitrary: cur offset)
  case Nil
  then show ?case by simp
next
  case (Cons x xs)
  have "read_pdb_line (done @ [cur]) (format_node x ''A'' (offset + 1))
      = Inr (done @ [cur\<lparr>chain_nodes := chain_nodes cur @ [round_point x]\<rparr>])"
    using Cons.prems by (intro read_node_line) simp_all
  moreover have "read_pdb_loop (done @ [cur\<lparr>chain_nodes := chain_nodes cur @ [round_point x]\<rparr>])
      (map (\<lambda>i. format_node (xs ! i) ''A'' ((offset + 1) + int i + 1)) [0 ..< length xs])
      = Inr (done @ [cur\<lparr>chain_nodes := chain_nodes cur @ [round_point x]\<rparr>
          \<lparr>chain_nodes := chain_nodes (cur\<lparr>chain_nodes := chain_nodes cur @ [round_point x]\<rparr>)
             @ map round_point xs\<rparr>])"
    using Cons.prems by (intro Cons.IH) simp_all
  ultimately show ?case
    by (simp only: node_lines_Cons read_pdb_loop.simps sum.case) simp
qed

lemma read_atom_lines:
  assumes "0 \<le> offset" and "offset + total_size chs \<le> 9999"
    and "list_all (\<lambda>ch. list_all short_text (chain_nodes ch)) chs"
  shows "read_pdb_loop (done @ [empty_chain]) (atom_lines chs offset)
         = Inr (done @ map (\<lambda>ch. \<lparr>chain_nodes = map round_point (chain_nodes ch),
                  chain_sheets = [], chain_helices = []\<rparr>) chs @ [empty_chain])"
  using assms
proof (induction chs arbitrary: "done" offset)
  case Nil
  then show ?case by simp
next
  case (Cons ch chs)
  let ?n = "int (length (chain_nodes ch))"
  let ?read = "\<lparr>chain_nodes = map round_point (chain_nodes ch), chain_sheets = [],
    chain_helices = []\<rparr>"
  have size: "offset + ?n + 1 + total_size chs \<le> 9999"
    using Cons.prems(2) by (simp add: total_size_Cons)
  have a: "read_pdb_loop (done @ [empty_chain])
      (map (\<lambda>i. format_node (chain_nodes ch ! i) ''A'' (offset + int i + 1))
         [0 ..< length (chain_nodes ch)])
      = Inr (done @ [?read])"
    using Cons.prems size total_size_nonneg [of chs]
      read_node_lines [of offset "chain_nodes ch" "done" empty_chain]
    by (simp add: empty_chain_def)
  have b: "read_pdb_loop (done @ [?read]) [''TER'' @ [newline]]
      = Inr ((done @ [?read]) @ [empty_chain])"
    by (simp only: read_pdb_loop.simps ter_line_parts(1) sum.case)
  have c: "read_pdb_loop ((done @ [?read]) @ [empty_chain]) (atom_lines chs (offset + ?n + 1))
      = Inr ((done @ [?read]) @ map (\<lambda>ch. \<lparr>chain_nodes = map round_point (chain_nodes ch),
                  chain_sheets = [], chain_helices = []\<rparr>) chs @ [empty_chain])"
    using Cons.prems size by (intro Cons.IH) simp_all
  show ?case
    by (simp only: atom_lines.simps read_pdb_loop_append a b c sum.case) simp
qed


lemma locate_helix_offset:
  assumes "0 \<le> e" and "e \<le> int (length (chain_nodes p))"
  shows "locate_helix (s + total_size pre, e + total_size pre) i (pre @ p # post)
           = ((s, e), i + length pre)"
proof (induction pre arbitrary: i)
  case Nil
  then show ?case using assms by (simp add: total_size_def)
next
  case (Cons q pre)
  have "\<not> e + total_size (q # pre) \<le> int (length (chain_nodes q))"
    using assms(1) total_size_nonneg [of pre] by (simp add: total_size_Cons)
  then have "locate_helix (s + total_size (q # pre), e + total_size (q # pre)) i
      ((q # pre) @ p # post)
      = locate_helix (s + total_size pre, e + total_size pre) (i + 1) (pre @ p # post)"
    by (simp add: total_size_Cons)
  then show ?case
    using Cons [of "i + 1"] by simp
qed

lemma locate_sheet_offset:
  assumes "0 \<le> e" and "e < int (length (chain_nodes p))"
  shows "locate_sheet (s + total_size pre, e + total_size pre) i (pre @ p # post)
           = ((s, e), i + length pre)"
proof (induction pre arbitrary: i)
  case Nil
  then show ?case using assms by (simp add: total_size_def)
next
  case (Cons q pre)
  have "\<not> e + total_size (q # pre) < int (length (chain_nodes q))"
    using assms(1) total_size_nonneg [of pre] by (simp add: total_size_Cons)
  then have "locate_sheet (s + total_size (q # pre), e + total_size (q # pre)) i
      ((q # pre) @ p # post)
      = locate_sheet (s + total_size pre, e + total_size pre) (i + 1) (pre @ p # post)"
    by (simp add: total_size_Cons)
  then show ?case
    using Cons [of "i + 1"] by simp
qed

lemma read_helix_line:
  assumes "valid_helix (length (chain_nodes p)) (s, e)"
    and "total_size pre + int (length (chain_nodes p)) + 1 \<le> 9999"
  shows "read_pdb_line (pre @ p # post)
           (format_helix_info ''A'' (s + total_size pre) (e + total_size pre))
         = Inr (pre @ p\<lparr>chain_helices := chain_helices p @ [(s, e)]\<rparr> # post)"
proof -
  have v: "0 \<le> s" "s \<le> e" "e \<le> int (length (chain_nodes p))"
    using assms(1) by (simp_all add: valid_helix_def)
  have w: "0 \<le> s + total_size pre + 1" "s + total_size pre + 1 \<le> 9999"
    "0 \<le> e + total_size pre" "e + total_size pre \<le> 9999"
    using v assms(2) total_size_nonneg [of pre] by simp_all
  note parts = helix_line_parts [OF w]
  have "locate_helix (s + total_size pre, e + total_size pre) 0 (pre @ p # post)
      = ((s, e), length pre)"
    using locate_helix_offset [of e p s pre 0 post] v by simp
  then show ?thesis
    using parts by (simp add: read_pdb_line_def)
qed

lemma read_sheet_line:
  assumes "valid_sheet (length (chain_nodes p)) (s, e)"
    and "total_size pre + int (length (chain_nodes p)) + 1 \<le> 9999"
  shows "read_pdb_line (pre @ p # post)
           (format_sheet_info ''A'' (s + total_size pre) (e + total_size pre))
         = Inr (pre @ p\<lparr>chain_sheets := chain_sheets p @ [(s, e)]\<rparr> # post)"
proof -
  have v: "0 \<le> s" "s \<le> e" "e < int (length (chain_nodes p))"
    using assms(1) by (simp_all add: valid_sheet_def)
  have w: "0 \<le> s + total_size pre + 1" "s + total_size pre + 1 \<le> 9999"
    "0 \<le> e + total_size pre + 1" "e + total_size pre + 1 \<le> 9999"
    using v assms(2) total_size_nonneg [of pre] by simp_all
  note parts = sheet_line_parts [OF w]
  have "locate_sheet (s + total_size pre, e + total_size pre) 0 (pre @ p # post)
      = ((s, e), length pre)"
    using locate_sheet_offset [of e p s pre 0 post] v by simp
  then show ?thesis
    using parts by (simp add: read_pdb_line_def)
qed

lemma read_helix_lines_chain:
  assumes "list_all (valid_helix (length (chain_nodes p))) hs"
    and "total_size pre + int (length (chain_nodes p)) + 1 \<le> 9999"
  shows "read_pdb_loop (pre @ p # post)
           (map (\<lambda>(helix_start, helix_end).
              format_helix_info ''A'' (helix_start + total_size pre) (helix_end + total_size pre)) hs)
         = Inr (pre @ p\<lparr>chain_helices := chain_helices p @ hs\<rparr> # post)"
  using assms
proof (induction hs arbitrary: p)
  case Nil
  then show ?case by simp
next
  case (Cons h hs)
  obtain s e where h: "h = (s, e)"
    by (cases h)
  let ?p = "p\<lparr>chain_helices := chain_helices p @ [(s, e)]\<rparr>"
  have "read_pdb_line (pre @ p # post)
      (format_helix_info ''A'' (s + total_size pre) (e + total_size pre)) = Inr (pre @ ?p # post)"
    using Cons.prems h by (intro read_helix_line) simp_all
  moreover have "read_pdb_loop (pre @ ?p # post)
      (map (\<lambda>(helix_start, helix_end).
         format_helix_info ''A'' (helix_start + total_size pre) (helix_end + total_size pre)) hs)
      = Inr (pre @ ?p\<lparr>chain_helices := chain_helices ?p @ hs\<rparr> # post)"
    using Cons.prems by (intro Cons.IH) simp_all
  ultimately show ?case
    by (simp add: h)
qed

lemma read_sheet_lines_chain:
  assumes "list_all (valid_sheet (length (chain_nodes p))) hs"
    and "total_size pre + int (length (chain_nodes p)) + 1 \<le> 9999"
  shows "read_pdb_loop (pre @ p # post)
           (map (\<lambda>(sheet_start, sheet_end).
              format_sheet_info ''A'' (sheet_start + total_size pre) (sheet_end + total_size pre)) hs)
         = Inr (pre @ p\<lparr>chain_sheets := chain_sheets p @ hs\<rparr> # post)"
  using assms
proof (induction hs arbitrary: p)
  case Nil
  then show ?case by simp
next
  case (Cons h hs)
  obtain s e where h: "h = (s, e)"
    by (cases h)
  let ?p = "p\<lparr>chain_sheets := chain_sheets p @ [(s, e)]\<rparr>"
  have "read_pdb_line (pre @ p # post)
      (format_sheet_info ''A'' (s + total_size pre) (e + total_size pre)) = Inr (pre @ ?p # post)"
    using Cons.prems h by (intro read_sheet_line) simp_all
  moreover have "read_pdb_loop (pre @ ?p # post)
      (map (\<lambda>(sheet_start, sheet_end).
         format_sheet_info ''A'' (sheet_start + total_size pre) (sheet_end + total_size pre)) hs)
      = Inr (pre @ ?p\<lparr>chain_sheets := chain_sheets ?p @ hs\<rparr> # post)"
    using Cons.prems by (intro Cons.IH) simp_all
  ultimately show ?case
    by (simp add: h)
qed


lemma read_helix_lines:
  assumes g: "\<And>c. length (chain_nodes (g c)) = length (chain_nodes c)"
    and "list_all (\<lambda>c. list_all (valid_helix (length (chain_nodes c))) (chain_helices c)) chs"
    and "total_size pre + total_size chs \<le> 9999"
  shows "read_pdb_loop (pre @ map g chs @ extra) (helix_lines chs (total_size pre))
         = Inr (pre @ map (\<lambda>c. (g c)\<lparr>chain_helices := chain_helices (g c) @ chain_helices c\<rparr>) chs
                  @ extra)"
  using assms(2,3)
proof (induction chs arbitrary: pre)
  case Nil
  then show ?case by simp
next
  case (Cons ch chs)
  let ?p = "(g ch)\<lparr>chain_helices := chain_helices (g ch) @ chain_helices ch\<rparr>"
  have size: "total_size pre + int (length (chain_nodes (g ch))) + 1 \<le> 9999"
    using Cons.prems(2) total_size_nonneg [of chs] by (simp add: total_size_Cons g)
  have a: "read_pdb_loop (pre @ g ch # (map g chs @ extra))
      (map (\<lambda>(helix_start, helix_end).
         format_helix_info ''A'' (helix_start + total_size pre) (helix_end + total_size pre))
         (chain_helices ch))
      = Inr (pre @ ?p # (map g chs @ extra))"
    using Cons.prems(1) size by (intro read_helix_lines_chain) (simp_all add: g)
  have t: "total_size pre + int (length (chain_nodes ch)) + 1 = total_size (pre @ [?p])"
    by (simp add: total_size_snoc g)
  have b: "read_pdb_loop ((pre @ [?p]) @ map g chs @ extra) (helix_lines chs (total_size (pre @ [?p])))
      = Inr ((pre @ [?p])
          @ map (\<lambda>c. (g c)\<lparr>chain_helices := chain_helices (g c) @ chain_helices c\<rparr>) chs @ extra)"
    using Cons.prems by (intro Cons.IH) (simp_all add: total_size_snoc total_size_Cons g)
  show ?case
    using a b by (simp add: read_pdb_loop_append t)
qed

lemma read_sheet_lines:
  assumes g: "\<And>c. length (chain_nodes (g c)) = length (chain_nodes c)"
    and "list_all (\<lambda>c. list_all (valid_sheet (length (chain_nodes c))) (chain_sheets c)) chs"
    and "total_size pre + total_size chs \<le> 9999"
  shows "read_pdb_loop (pre @ map g chs @ extra) (sheet_lines chs (total_size pre))
         = Inr (pre @ map (\<lambda>c. (g c)\<lparr>chain_sheets := chain_sheets (g c) @ chain_sheets c\<rparr>) chs
                  @ extra)"
  using assms(2,3)
proof (induction chs arbitrary: pre)
  case Nil
  then show ?case by simp
next
  case (Cons ch chs)
  let ?p = "(g ch)\<lparr>chain_sheets := chain_sheets (g ch) @ chain_sheets ch\<rparr>"
  have size: "total_size pre + int (length (chain_nodes (g ch))) + 1 \<le> 9999"
    using Cons.prems(2) total_size_nonneg [of chs] by (simp add: total_size_Cons g)
  have a: "read_pdb_loop (pre @ g ch # (map g chs @ extra))
      (map (\<lambda>(sheet_start, sheet_end).
         format_sheet_info ''A'' (sheet_start + total_size pre) (sheet_end + total_size pre))
         (chain_sheets ch))
      = Inr (pre @ ?p # (map g chs @ extra))"
    using Cons.prems(1) size by (intro read_sheet_lines_chain) (simp_all add: g)
  have t: "total_size pre + int (length (chain_nodes ch)) + 1 = total_size (pre @ [?p])"
    by (simp add: total_size_snoc g)
  have b: "read_pdb_loop ((pre @ [?p]) @ map g chs @ extra) (sheet_lines chs (total_size (pre @ [?p])))
      = Inr ((pre @ [?p])
          @ map (\<lambda>c. (g c)\<lparr>chain_sheets := chain_sheets (g c) @ chain_sheets c\<rparr>) chs @ extra)"
    using Cons.prems by (intro Cons.IH) (simp_all add: total_size_snoc total_size_Cons g)
  show ?case
    using a b by (simp add: read_pdb_loop_append t)
qed

lemma atom_lines_records:
  assumes "0 \<le> offset" and "offset + total_size chs \<le> 9999"
    and "list_all (\<lambda>ch. list_all short_text (chain_nodes ch)) chs"
  shows "list_all is_record (atom_lines chs offset)"
  using assms
proof (induction chs arbitrary: offset)
  case Nil
  then show ?case by simp
next
  case (Cons ch chs)
  have size: "offset + int (length (chain_nodes ch)) + 1 + total_size chs \<le> 9999"
    using Cons.prems(2) by (simp add: total_size_Cons)
  have "is_record (format_node (chain_nodes ch ! i) ''A'' (offset + int i + 1))"
    if "i < length (chain_nodes ch)" for i
  proof -
    have "short_text (chain_nodes ch ! i)"
      using that Cons.prems(3) by (simp add: list_all_iff)
    then show ?thesis
      using that Cons.prems(1) size total_size_nonneg [of chs]
      by (intro node_line_parts(4)) simp_all
  qed
  moreover have "list_all is_record (atom_lines chs (offset + int (length (chain_nodes ch)) + 1))"
    using Cons.prems size by (intro Cons.IH) simp_all
  moreover have "is_record [CHR ''T'', CHR ''E'', CHR ''R'', newline]"
    using ter_line_parts(2) by simp
  ultimately show ?case
    by (auto simp: list_all_iff)
qed

lemma helix_lines_records:
  assumes "0 \<le> offset" and "offset + total_size chs \<le> 9999"
    and "list_all (\<lambda>c. list_all (valid_helix (length (chain_nodes c))) (chain_helices c)) chs"
  shows "list_all is_record (helix_lines chs offset)"
  using assms
proof (induction chs arbitrary: offset)
  case Nil
  then show ?case by simp
next
  case (Cons ch chs)
  have size: "offset + int (length (chain_nodes ch)) + 1 + total_size chs \<le> 9999"
    using Cons.prems(2) by (simp add: total_size_Cons)
  have "is_record (format_helix_info ''A'' (s + offset) (e + offset))"
    if "(s, e) \<in> set (chain_helices ch)" for s e
  proof -
    have "valid_helix (length (chain_nodes ch)) (s, e)"
      using that Cons.prems(3) by (auto simp: list_all_iff)
    then show ?thesis
      using Cons.prems(1) size total_size_nonneg [of chs]
      by (intro helix_line_parts(6)) (simp_all add: valid_helix_def)
  qed
  moreover have "list_all is_record (helix_lines chs (offset + int (length (chain_nodes ch)) + 1))"
    using Cons.prems size by (intro Cons.IH) simp_all
  ultimately show ?case
    by (auto simp: list_all_iff)
qed

lemma sheet_lines_records:
  assumes "0 \<le> offset" and "offset + total_size chs \<le> 9999"
    and "list_all (\<lambda>c. list_all (valid_sheet (length (chain_nodes c))) (chain_sheets c)) chs"
  shows "list_all is_record (sheet_lines chs offset)"
  using assms
proof (induction chs arbitrary: offset)
  case Nil
  then show ?case by simp
next
  case (Cons ch chs)
  have size: "offset + int (length (chain_nodes ch)) + 1 + total_size chs \<le> 9999"
    using Cons.prems(2) by (simp add: total_size_Cons)
  have "is_record (format_sheet_info ''A'' (s + offset) (e + offset))"
    if "(s, e) \<in> set (chain_sheets ch)" for s e
  proof -
    have "valid_sheet (length (chain_nodes ch)) (s, e)"
      using that Cons.prems(3) by (auto simp: list_all_iff)
    then show ?thesis
      using Cons.prems(1) size total_size_nonneg [of chs]
      by (intro sheet_line_parts(7)) (simp_all add: valid_sheet_def)
  qed
  moreover have "list_all is_record (sheet_lines chs (offset + int (length (chain_nodes ch)) + 1))"
    using Cons.prems size by (intro Cons.IH) simp_all
  ultimately show ?case
    by (auto simp: list_all_iff)
qed


lemma read_write_round_trip:
  assumes "writable chs"
  shows "read_pdb (write_pdb chs) = Inr (map read_back chs @ [empty_chain])"
proof -
  let ?nodes_only = "\<lambda>ch. \<lparr>chain_nodes = map round_point (chain_nodes ch), chain_sheets = [],
    chain_helices = []\<rparr>"
  let ?with_helices = "\<lambda>c. (?nodes_only c)
    \<lparr>chain_helices := chain_helices (?nodes_only c) @ chain_helices c\<rparr>"
  have size: "(0 :: int) + total_size chs \<le> 9999" "total_size [] + total_size chs \<le> 9999"
    using assms by (simp_all add: writable_def total_size_def)
  have short: "list_all (\<lambda>ch. list_all short_text (chain_nodes ch)) chs"
    and helices: "list_all (\<lambda>c. list_all (valid_helix (length (chain_nodes c))) (chain_helices c)) chs"
    and sheets: "list_all (\<lambda>c. list_all (valid_sheet (length (chain_nodes c))) (chain_sheets c)) chs"
    using assms by (simp_all add: writable_def writable_chain_def list_all_iff)
  have "list_all is_record (atom_lines chs 0 @ helix_lines chs 0 @ sheet_lines chs 0)"
    using atom_lines_records [OF _ size(1) short] helix_lines_records [OF _ size(1) helices]
      sheet_lines_records [OF _ size(1) sheets]
    by simp
  then have "file_lines (concat (atom_lines chs 0 @ helix_lines chs 0 @ sheet_lines chs 0))
      = atom_lines chs 0 @ helix_lines chs 0 @ sheet_lines chs 0"
    by (rule file_lines_records)
  then have lines: "read_pdb (write_pdb chs)
      = read_pdb_loop [empty_chain] (atom_lines chs 0 @ helix_lines chs 0 @ sheet_lines chs 0)"
    by (simp only: read_pdb_def write_pdb_lines)
  have a: "read_pdb_loop [empty_chain] (atom_lines chs 0)
      = Inr (map ?nodes_only chs @ [empty_chain])"
    using read_atom_lines [OF _ size(1) short, of "[]"] by simp
  have b: "read_pdb_loop (map ?nodes_only chs @ [empty_chain]) (helix_lines chs 0)
      = Inr (map ?with_helices chs @ [empty_chain])"
    using read_helix_lines [where g = ?nodes_only and pre = "[]" and extra = "[empty_chain]",
        OF _ helices size(2)]
    by (simp add: total_size_def)
  have c: "read_pdb_loop (map ?with_helices chs @ [empty_chain]) (sheet_lines chs 0)
      = Inr (map (\<lambda>c. (?with_helices c)
          \<lparr>chain_sheets := chain_sheets (?with_helices c) @ chain_sheets c\<rparr>) chs @ [empty_chain])"
    using read_sheet_lines [where g = ?with_helices and pre = "[]" and extra = "[empty_chain]",
        OF _ sheets size(2)]
    by (simp add: total_size_def)
  have "(\<lambda>c. (?with_helices c)\<lparr>chain_sheets := chain_sheets (?with_helices c) @ chain_sheets c\<rparr>)
      = read_back"
    by (rule ext) (simp add: read_back_def)
  then show ?thesis
    using a b c by (simp add: lines read_pdb_loop_append)
qed

lemma round_half_even_close:
  "\<bar>real_of_int (round_half_even y) - y\<bar> \<le> 1 / 2"
proof -
  have "real_of_int \<lfloor>y\<rfloor> \<le> y" "y < real_of_int \<lfloor>y\<rfloor> + 1"
    by linarith+
  then show ?thesis
    by (auto simp: round_half_even_def Let_def abs_le_iff)
qed

lemma round_half_even_nonneg: "0 \<le> y \<Longrightarrow> 0 \<le> round_half_even y"
  by (auto simp: round_half_even_def Let_def)

lemma round_3f_close: "\<bar>round_3f x - x\<bar> \<le> 1 / 2000"
proof -
  define m where "m = round_half_even (\<bar>x\<bar> * 1000)"
  have "0 \<le> m"
    unfolding m_def by (rule round_half_even_nonneg) simp
  then have r: "real (nat m) = real_of_int m"
    by simp
  have "\<bar>real_of_int m - \<bar>x\<bar> * 1000\<bar> \<le> 1 / 2"
    unfolding m_def by (rule round_half_even_close)
  then have d: "\<bar>x\<bar> * 1000 - 1 / 2 \<le> real_of_int m" "real_of_int m \<le> \<bar>x\<bar> * 1000 + 1 / 2"
    by linarith+
  have e: "round_3f x = (if x < 0 then - 1 else 1) * (real_of_int m / 1000)"
    using r by (simp add: round_3f_def m_def)
  show ?thesis
  proof (cases "x < 0")
    case True
    then have "round_3f x = - (real_of_int m / 1000)" "\<bar>x\<bar> = - x"
      using e by simp_all
    then show ?thesis
      using d by linarith
  next
    case False
    then have "round_3f x = real_of_int m / 1000" "\<bar>x\<bar> = x"
      using e by simp_all
    then show ?thesis
      using d by linarith
  qed
qed

text \<open>
  Claim C8, as the code has it. A writable list of chains is read back from the text that
  \<^verbatim>\<open>write_pdb\<close> produces as the same chains followed by one empty chain (one chain is
  added for every \<^verbatim>\<open>TER\<close> line): the helix and the sheet ranges are the same and every
  coordinate is rounded to three decimals, at most \<open>0.0005\<close> away. A sheet range must
  name its last node (\<open>end < len\<close>), since \<^verbatim>\<open>parse_sheet\<close> looks for the chain with
  \<^verbatim>\<open>data[1] < len(chain.nodes)\<close>. The helix end is written as it is and the sheet end
  plus one, and \<^verbatim>\<open>parse_helix\<close> and \<^verbatim>\<open>parse_sheet\<close> read both back.
\<close>

theorem write_read_round_trip:
  "(writable chs \<longrightarrow> read_pdb (write_pdb chs) = Inr (map read_back chs @ [empty_chain])) \<and>
   chain_helices (read_back ch) = chain_helices ch \<and>
   chain_sheets (read_back ch) = chain_sheets ch \<and>
   chain_nodes (read_back ch) = map round_point (chain_nodes ch) \<and>
   round_point (x, y, z) = (round_3f x, round_3f y, round_3f z) \<and>
   \<bar>round_3f x - x\<bar> \<le> 1 / 2000 \<and>
   (0 \<le> a \<and> a \<le> 9998 \<and> 0 \<le> b \<and> b \<le> 9998 \<longrightarrow>
      py_int (py_slice (format_helix_info ''A'' a b) 33 37) = Inr b \<and>
      py_int (py_slice (format_sheet_info ''A'' a b) 33 37) = Inr (b + 1) \<and>
      parse_helix (format_helix_info ''A'' a b) [] = Inr ((a, b), 0) \<and>
      parse_sheet (format_sheet_info ''A'' a b) [] = Inr ((a, b), 0))"
proof -
  have "py_int (py_slice (format_helix_info ''A'' a b) 33 37) = Inr b \<and>
      py_int (py_slice (format_sheet_info ''A'' a b) 33 37) = Inr (b + 1) \<and>
      parse_helix (format_helix_info ''A'' a b) [] = Inr ((a, b), 0) \<and>
      parse_sheet (format_sheet_info ''A'' a b) [] = Inr ((a, b), 0)"
    if "0 \<le> a" "a \<le> 9998" "0 \<le> b" "b \<le> 9998"
  proof -
    have w: "0 \<le> a + 1" "a + 1 \<le> 9999" "0 \<le> b" "b \<le> 9999" "0 \<le> b + 1" "b + 1 \<le> 9999"
      using that by simp_all
    show ?thesis
      using helix_line_parts(1) [OF w(1,2,3,4), of "[]"] helix_line_parts(2) [OF w(1,2,3,4)]
        sheet_line_parts(1) [OF w(1,2,5,6), of "[]"] sheet_line_parts(2) [OF w(1,2,5,6)]
      by simp
  qed
  then show ?thesis
    using read_write_round_trip [of chs] round_3f_close [of x]
    by (simp add: read_back_def round_point_def)
qed

theorem write_read_round_trip_witness:
  "writable
     [\<lparr>chain_nodes = [(0, 0, 0), (3 / 2, - 9 / 4, 3)], chain_sheets = [(0, 1)],
        chain_helices = [(0, 2)]\<rparr>,
      \<lparr>chain_nodes = [(1 / 3, 1 / 16, - 7)], chain_sheets = [(0, 0)],
        chain_helices = [(0, 1), (1, 1)]\<rparr>] \<and>
   read_pdb (write_pdb
     [\<lparr>chain_nodes = [(0, 0, 0), (3 / 2, - 9 / 4, 3)], chain_sheets = [(0, 1)],
        chain_helices = [(0, 2)]\<rparr>,
      \<lparr>chain_nodes = [(1 / 3, 1 / 16, - 7)], chain_sheets = [(0, 0)],
        chain_helices = [(0, 1), (1, 1)]\<rparr>])
   = Inr [\<lparr>chain_nodes = [(0, 0, 0), (3 / 2, - 9 / 4, 3)], chain_sheets = [(0, 1)],
            chain_helices = [(0, 2)]\<rparr>,
          \<lparr>chain_nodes = [(333 / 1000, 31 / 500, - 7)], chain_sheets = [(0, 0)],
            chain_helices = [(0, 1), (1, 1)]\<rparr>,
          \<lparr>chain_nodes = [], chain_sheets = [], chain_helices = []\<rparr>] \<and>
   (0 :: int) \<le> 2 \<and> (2 :: int) \<le> 9998 \<and> (0 :: int) \<le> 5 \<and> (5 :: int) \<le> 9998 \<and>
   py_int (py_slice (format_helix_info ''A'' 2 5) 33 37) = Inr 5 \<and>
   py_int (py_slice (format_sheet_info ''A'' 2 5) 33 37) = Inr 6 \<and>
   parse_helix (format_helix_info ''A'' 2 5) [] = Inr ((2, 5), 0) \<and>
   parse_sheet (format_sheet_info ''A'' 2 5) [] = Inr ((2, 5), 0)"
proof -
  let ?chs = "[\<lparr>chain_nodes = [(0, 0, 0), (3 / 2, - 9 / 4, 3)], chain_sheets = [(0, 1)],
        chain_helices = [(0, 2)]\<rparr>,
      \<lparr>chain_nodes = [(1 / 3, 1 / 16, - 7)], chain_sheets = [(0, 0)],
        chain_helices = [(0, 1), (1, 1)]\<rparr>]"
  have w: "writable ?chs"
    by code_simp
  have r: "map read_back ?chs @ [empty_chain]
      = [\<lparr>chain_nodes = [(0, 0, 0), (3 / 2, - 9 / 4, 3)], chain_sheets = [(0, 1)],
            chain_helices = [(0, 2)]\<rparr>,
          \<lparr>chain_nodes = [(333 / 1000, 31 / 500, - 7)], chain_sheets = [(0, 0)],
            chain_helices = [(0, 1), (1, 1)]\<rparr>,
          \<lparr>chain_nodes = [], chain_sheets = [], chain_helices = []\<rparr>]"
    by (simp add: read_back_def round_point_def round_3f_def round_half_even_def Let_def
        empty_chain_def)
  have t: "(writable ?chs \<longrightarrow> read_pdb (write_pdb ?chs) = Inr (map read_back ?chs @ [empty_chain])) \<and>
      ((0 :: int) \<le> 2 \<and> (2 :: int) \<le> 9998 \<and> (0 :: int) \<le> 5 \<and> (5 :: int) \<le> 9998 \<longrightarrow>
        py_int (py_slice (format_helix_info ''A'' 2 5) 33 37) = Inr 5 \<and>
        py_int (py_slice (format_sheet_info ''A'' 2 5) 33 37) = Inr (5 + 1) \<and>
        parse_helix (format_helix_info ''A'' 2 5) [] = Inr ((2, 5), 0) \<and>
        parse_sheet (format_sheet_info ''A'' 2 5) [] = Inr ((2, 5), 0))"
    using write_read_round_trip [where chs = ?chs and a = 2 and b = 5] by blast
  have "read_pdb (write_pdb ?chs) = Inr (map read_back ?chs @ [empty_chain])"
    using t w by blast
  moreover have "py_int (py_slice (format_helix_info ''A'' 2 5) 33 37) = Inr 5 \<and>
        py_int (py_slice (format_sheet_info ''A'' 2 5) 33 37) = Inr 6 \<and>
        parse_helix (format_helix_info ''A'' 2 5) [] = Inr ((2, 5), 0) \<and>
        parse_sheet (format_sheet_info ''A'' 2 5) [] = Inr ((2, 5), 0)"
    using t by simp
  ultimately show ?thesis
    using w by (simp only: r) simp
qed

text \<open>
  The claim as the specification states it takes the sheet ranges to be half-open. One
  chain of two nodes with the helix range \<open>[0, 2)\<close> and the sheet range \<open>[0, 2)\<close>: the
  helix comes back, the sheet is put into the next chain as \<open>[-3, -1]\<close>.
\<close>

theorem write_read_sheet_counterexample:
  "valid_helix 2 (0, 2) \<and>
   read_pdb (write_pdb
     [\<lparr>chain_nodes = [(0, 0, 0), (1, 0, 0)], chain_sheets = [(0, 2)],
        chain_helices = [(0, 2)]\<rparr>])
   = Inr [\<lparr>chain_nodes = [(0, 0, 0), (1, 0, 0)], chain_sheets = [],
            chain_helices = [(0, 2)]\<rparr>,
          \<lparr>chain_nodes = [], chain_sheets = [(- 3, - 1)], chain_helices = []\<rparr>]"
  by code_simp

end
